theory Spec2Isabelle
  imports Complex_Main "HOL-Library.Sublist" "HOL-Library.List_Lexorder" "HOL-Library.Char_ord"
begin

text \<open>
  A shallow embedding of \<^verbatim>\<open>app.py\<close>, the King Street Pilot dashboard: the click-state
  callbacks (\<^verbatim>\<open>button_click\<close>, \<^verbatim>\<open>update_selected_street\<close>, the per-row class callbacks),
  the cell styling rule and the two dataset queries.

  The callbacks exchange their state as JSON text, so the Python values that
  \<^verbatim>\<open>json.loads\<close> can return and the two library functions \<^verbatim>\<open>json.dumps\<close> and
  \<^verbatim>\<open>json.loads\<close> are modelled first. Every exception of the source is a value:
  a function that can raise returns \<open>py_error + 'a\<close>, with \<open>Inl\<close> the exception.
\<close>

section \<open>Python values\<close>

text \<open>
  The exceptions the modelled code can raise. \<open>RecursionError\<close> is the scanner running
  out of its depth budget; \<open>Unmodelled\<close> marks an input the embedding does not cover.
\<close>

datatype py_error = JSONDecodeError | KeyError | TypeError | AttributeError | RecursionError | Unmodelled

text \<open>
  The values \<^verbatim>\<open>json.loads\<close> builds (floats apart): \<^verbatim>\<open>None\<close>, \<^verbatim>\<open>bool\<close>, \<^verbatim>\<open>int\<close>,
  \<^verbatim>\<open>str\<close>, \<^verbatim>\<open>list\<close> and the insertion-ordered \<^verbatim>\<open>dict\<close> / \<^verbatim>\<open>OrderedDict\<close> with string
  keys, kept as an association list in insertion order.
\<close>

datatype pyval = PNone | PBool bool | PInt int | PStr string
  | PList "pyval list" | PDict "(string \<times> pyval) list"

text \<open>
  Sequencing of two steps either of which may raise.
\<close>

definition py_bind :: "'e + 'a \<Rightarrow> ('a \<Rightarrow> 'e + 'b) \<Rightarrow> 'e + 'b" where
  "py_bind m f = (case m of Inl e \<Rightarrow> Inl e | Inr x \<Rightarrow> f x)"

text \<open>
  \<^verbatim>\<open>d[k] = v\<close>: an existing key keeps its position, a new key goes last.
\<close>

fun dict_set :: "(string \<times> 'v) list \<Rightarrow> string \<Rightarrow> 'v \<Rightarrow> (string \<times> 'v) list" where
  "dict_set [] k v = [(k, v)]"
| "dict_set ((k', v') # d) k v =
     (if k' = k then (k, v) # d else (k', v') # dict_set d k v)"

text \<open>
  \<^verbatim>\<open>OrderedDict(pairs)\<close>: the pairs are stored from left to right.
\<close>

definition OrderedDict :: "(string \<times> 'v) list \<Rightarrow> (string \<times> 'v) list" where
  "OrderedDict pairs = foldl (\<lambda>d (k, v). dict_set d k v) [] pairs"

section \<open>The json module\<close>

subsection \<open>json.dumps\<close>

text \<open>
  \<^verbatim>\<open>json.dumps\<close> with its default arguments: \<^verbatim>\<open>ensure_ascii=True\<close>, item separator
  \<^verbatim>\<open>', '\<close> and key separator \<^verbatim>\<open>': '\<close>. A Python string is modelled as a \<open>string\<close>
  whose characters are the code points 0 to 255.
\<close>

definition hexdigit :: "nat \<Rightarrow> char" where
  "hexdigit n = ''0123456789abcdef'' ! n"

definition escape_uXXXX :: "nat \<Rightarrow> string" where
  "escape_uXXXX n =
     [CHR 0x5C, CHR ''u'', hexdigit (n div 4096 mod 16), hexdigit (n div 256 mod 16),
      hexdigit (n div 16 mod 16), hexdigit (n mod 16)]"

text \<open>
  The replacement of \<^verbatim>\<open>py_encode_basestring_ascii\<close>: the named escapes, the printable
  ASCII characters unchanged, every other character as \<^verbatim>\<open>\uXXXX\<close>.
\<close>

definition escape_char :: "char \<Rightarrow> string" where
  "escape_char c =
     (if c = CHR 0x22 then [CHR 0x5C, CHR 0x22]
      else if c = CHR 0x5C then [CHR 0x5C, CHR 0x5C]
      else if c = CHR 0x0A then [CHR 0x5C, CHR ''n'']
      else if c = CHR 0x0D then [CHR 0x5C, CHR ''r'']
      else if c = CHR 0x09 then [CHR 0x5C, CHR ''t'']
      else if c = CHR 0x08 then [CHR 0x5C, CHR ''b'']
      else if c = CHR 0x0C then [CHR 0x5C, CHR ''f'']
      else if 32 \<le> (of_char c :: nat) \<and> (of_char c :: nat) \<le> 126 then [c]
      else escape_uXXXX (of_char c))"

definition encode_basestring_ascii :: "string \<Rightarrow> string" where
  "encode_basestring_ascii s = CHR 0x22 # concat (map escape_char s) @ [CHR 0x22]"

text \<open>
  \<^verbatim>\<open>int.__repr__\<close>: decimal digits, a leading minus sign for a negative number.
\<close>

fun str_nat :: "nat \<Rightarrow> string" where
  "str_nat n = (if n < 10 then [hexdigit n] else str_nat (n div 10) @ [hexdigit (n mod 10)])"

definition str_int :: "int \<Rightarrow> string" where
  "str_int i = (if i < 0 then CHR ''-'' # str_nat (nat (- i)) else str_nat (nat i))"

fun join :: "'a list \<Rightarrow> 'a list list \<Rightarrow> 'a list" where
  "join sep [] = []"
| "join sep [x] = x"
| "join sep (x # y # ys) = x @ sep @ join sep (y # ys)"

text \<open>
  \<^verbatim>\<open>json.dumps(obj)\<close>.
\<close>

fun json_dumps :: "pyval \<Rightarrow> string" where
  "json_dumps PNone = ''null''"
| "json_dumps (PBool b) = (if b then ''true'' else ''false'')"
| "json_dumps (PInt i) = str_int i"
| "json_dumps (PStr s) = encode_basestring_ascii s"
| "json_dumps (PList xs) = ''['' @ join '', '' (map json_dumps xs) @ '']''"
| "json_dumps (PDict d) =
     ''{'' @ join '', '' (map (\<lambda>(k, v). encode_basestring_ascii k @ '': '' @ json_dumps v) d) @ ''}''"

subsection \<open>json.loads\<close>

text \<open>
  \<^verbatim>\<open>json.loads(s, object_pairs_hook=OrderedDict)\<close>: the scanner of the standard library
  (\<^verbatim>\<open>scanstring\<close>, \<^verbatim>\<open>scan_once\<close>, \<^verbatim>\<open>JSONArray\<close>, \<^verbatim>\<open>JSONObject\<close>), reading a string from
  the left and returning the parsed value with the rest of the input. Two things lie
  outside the model and are answered with \<open>Unmodelled\<close>: floating point literals
  (a fraction, an exponent, \<^verbatim>\<open>NaN\<close>, \<^verbatim>\<open>Infinity\<close>) and \<^verbatim>\<open>\uXXXX\<close> escapes above
  code point 255.
\<close>

definition is_ws :: "char \<Rightarrow> bool" where
  "is_ws c = (c = CHR '' '' \<or> c = CHR 0x09 \<or> c = CHR 0x0A \<or> c = CHR 0x0D)"

definition skip_ws :: "string \<Rightarrow> string" where
  "skip_ws s = dropWhile is_ws s"

definition is_digit :: "char \<Rightarrow> bool" where
  "is_digit c = (48 \<le> (of_char c :: nat) \<and> (of_char c :: nat) \<le> 57)"

definition digit_val :: "char \<Rightarrow> nat" where
  "digit_val c = of_char c - 48"

definition hex_val :: "char \<Rightarrow> nat option" where
  "hex_val c =
     (let n = (of_char c :: nat) in
      if 48 \<le> n \<and> n \<le> 57 then Some (n - 48)
      else if 97 \<le> n \<and> n \<le> 102 then Some (n - 87)
      else if 65 \<le> n \<and> n \<le> 70 then Some (n - 55)
      else None)"

definition decode_uXXXX :: "string \<Rightarrow> nat option" where
  "decode_uXXXX s =
     (case s of
        a # b # c # d # _ \<Rightarrow>
          (case (hex_val a, hex_val b, hex_val c, hex_val d) of
             (Some x, Some y, Some z, Some w) \<Rightarrow> Some (((x * 16 + y) * 16 + z) * 16 + w)
           | _ \<Rightarrow> None)
      | _ \<Rightarrow> None)"

definition BACKSLASH :: "char \<Rightarrow> char option" where
  "BACKSLASH esc =
     (if esc = CHR 0x22 then Some (CHR 0x22)
      else if esc = CHR 0x5C then Some (CHR 0x5C)
      else if esc = CHR ''/'' then Some (CHR ''/'')
      else if esc = CHR ''b'' then Some (CHR 0x08)
      else if esc = CHR ''f'' then Some (CHR 0x0C)
      else if esc = CHR ''n'' then Some (CHR 0x0A)
      else if esc = CHR ''r'' then Some (CHR 0x0D)
      else if esc = CHR ''t'' then Some (CHR 0x09)
      else None)"

definition cons_chunk :: "char \<Rightarrow> py_error + string \<times> string \<Rightarrow> py_error + string \<times> string" where
  "cons_chunk c res = (case res of Inl e \<Rightarrow> Inl e | Inr (content, rest) \<Rightarrow> Inr (c # content, rest))"

text \<open>
  \<^verbatim>\<open>scanstring(s, end, strict=True)\<close>, called just after the opening quote: the
  decoded content and the input after the closing quote.
\<close>

fun scanstring :: "string \<Rightarrow> py_error + string \<times> string" where
  "scanstring [] = Inl JSONDecodeError"
| "scanstring (c # s) =
     (if c = CHR 0x22 then Inr ([], s)
      else if c = CHR 0x5C then
        (case s of
           [] \<Rightarrow> Inl JSONDecodeError
         | esc # s' \<Rightarrow>
             if esc = CHR ''u'' then
               (case decode_uXXXX s' of
                  None \<Rightarrow> Inl JSONDecodeError
                | Some uni \<Rightarrow>
                    if uni < 256 then cons_chunk (char_of uni) (scanstring (drop 4 s'))
                    else Inl Unmodelled)
             else
               (case BACKSLASH esc of
                  None \<Rightarrow> Inl JSONDecodeError
                | Some ch \<Rightarrow> cons_chunk ch (scanstring s')))
      else if (of_char c :: nat) < 32 then Inl JSONDecodeError
      else cons_chunk c (scanstring s))"

definition has_frac :: "string \<Rightarrow> bool" where
  "has_frac s = (case s of c # d # _ \<Rightarrow> c = CHR ''.'' \<and> is_digit d | _ \<Rightarrow> False)"

definition has_exp :: "string \<Rightarrow> bool" where
  "has_exp s =
     (case s of
        e # r \<Rightarrow>
          (e = CHR ''e'' \<or> e = CHR ''E'') \<and>
          (case r of
             [] \<Rightarrow> False
           | c # r' \<Rightarrow>
               is_digit c \<or>
               ((c = CHR ''+'' \<or> c = CHR ''-'') \<and> (case r' of [] \<Rightarrow> False | d # _ \<Rightarrow> is_digit d)))
      | [] \<Rightarrow> False)"

definition int_of_digits :: "string \<Rightarrow> int" where
  "int_of_digits ds = foldl (\<lambda>a d. 10 * a + int (digit_val d)) 0 ds"

text \<open>
  \<^verbatim>\<open>NUMBER_RE = (-?(?:0|[1-9]\d*))(\.\d+)?([eE][-+]?\d+)?\<close>; \<open>None\<close> when the regular
  expression does not match at the start of the input.
\<close>

definition match_number :: "string \<Rightarrow> (py_error + pyval \<times> string) option" where
  "match_number s =
     (let neg = (s \<noteq> [] \<and> hd s = CHR ''-'');
          s1 = (if neg then tl s else s)
      in case s1 of
           [] \<Rightarrow> None
         | d # r \<Rightarrow>
             if \<not> is_digit d then None
             else
               (let ds = (if d = CHR ''0'' then [d] else d # takeWhile is_digit r);
                    rest = (if d = CHR ''0'' then r else dropWhile is_digit r)
                in if has_frac rest \<or> has_exp rest then Some (Inl Unmodelled)
                   else Some (Inr (PInt (if neg then - int_of_digits ds else int_of_digits ds), rest))))"

text \<open>
  \<^verbatim>\<open>scan_once\<close> with \<^verbatim>\<open>JSONArray\<close> and \<^verbatim>\<open>JSONObject\<close>. The first argument bounds the
  number of nested calls; \<^verbatim>\<open>JSONArray\<close> is entered at the first element and
  \<^verbatim>\<open>JSONObject\<close> just after the opening quote of the first key, each with the items
  read so far.
\<close>

fun scan_once :: "nat \<Rightarrow> string \<Rightarrow> py_error + pyval \<times> string"
  and JSONArray :: "nat \<Rightarrow> pyval list \<Rightarrow> string \<Rightarrow> py_error + pyval \<times> string"
  and JSONObject :: "nat \<Rightarrow> (string \<times> pyval) list \<Rightarrow> string \<Rightarrow> py_error + pyval \<times> string"
where
  "scan_once 0 s = Inl RecursionError"
| "scan_once (Suc n) s =
     (case s of
        [] \<Rightarrow> Inl JSONDecodeError
      | c # r \<Rightarrow>
          if c = CHR 0x22 then
            (case scanstring r of Inl e \<Rightarrow> Inl e | Inr (str, r') \<Rightarrow> Inr (PStr str, r'))
          else if c = CHR ''{'' then
            (case skip_ws r of
               [] \<Rightarrow> Inl JSONDecodeError
             | c' # r' \<Rightarrow>
                 if c' = CHR ''}'' then Inr (PDict (OrderedDict []), r')
                 else if c' = CHR 0x22 then JSONObject n [] r'
                 else Inl JSONDecodeError)
          else if c = CHR ''['' then
            (case skip_ws r of
               [] \<Rightarrow> Inl JSONDecodeError
             | c' # r' \<Rightarrow>
                 if c' = CHR '']'' then Inr (PList [], r')
                 else JSONArray n [] (c' # r'))
          else if take 4 s = ''null'' then Inr (PNone, drop 4 s)
          else if take 4 s = ''true'' then Inr (PBool True, drop 4 s)
          else if take 5 s = ''false'' then Inr (PBool False, drop 5 s)
          else
            (case match_number s of
               Some res \<Rightarrow> res
             | None \<Rightarrow>
                 if take 3 s = ''NaN'' \<or> take 8 s = ''Infinity'' \<or> take 9 s = ''-Infinity''
                 then Inl Unmodelled
                 else Inl JSONDecodeError))"
| "JSONArray 0 values' s = Inl RecursionError"
| "JSONArray (Suc n) values' s =
     (case scan_once n s of
        Inl e \<Rightarrow> Inl e
      | Inr (v, r) \<Rightarrow>
          (case skip_ws r of
             [] \<Rightarrow> Inl JSONDecodeError
           | c # r' \<Rightarrow>
               if c = CHR '']'' then Inr (PList (values' @ [v]), r')
               else if c = CHR '','' then JSONArray n (values' @ [v]) (skip_ws r')
               else Inl JSONDecodeError))"
| "JSONObject 0 pairs s = Inl RecursionError"
| "JSONObject (Suc n) pairs s =
     (case scanstring s of
        Inl e \<Rightarrow> Inl e
      | Inr (key, r) \<Rightarrow>
          (case skip_ws r of
             [] \<Rightarrow> Inl JSONDecodeError
           | c # r1 \<Rightarrow>
               if c \<noteq> CHR '':'' then Inl JSONDecodeError
               else
                 (case scan_once n (skip_ws r1) of
                    Inl e \<Rightarrow> Inl e
                  | Inr (v, r2) \<Rightarrow>
                      (case skip_ws r2 of
                         [] \<Rightarrow> Inl JSONDecodeError
                       | c' # r3 \<Rightarrow>
                           if c' = CHR ''}'' then Inr (PDict (OrderedDict (pairs @ [(key, v)])), r3)
                           else if c' = CHR '','' then
                             (case skip_ws r3 of
                                [] \<Rightarrow> Inl JSONDecodeError
                              | c'' # r4 \<Rightarrow>
                                  if c'' = CHR 0x22 then JSONObject n (pairs @ [(key, v)]) r4
                                  else Inl JSONDecodeError)
                           else Inl JSONDecodeError))))"

text \<open>
  \<^verbatim>\<open>JSONDecoder.decode\<close>: leading whitespace is skipped, one value is read, and anything
  but whitespace after it is an error ("Extra data").
\<close>

definition json_loads :: "string \<Rightarrow> py_error + pyval" where
  "json_loads s =
     (case scan_once (Suc (length s)) (skip_ws s) of
        Inl e \<Rightarrow> Inl e
      | Inr (obj, r) \<Rightarrow> if skip_ws r = [] then Inr obj else Inl JSONDecodeError)"

section \<open>Notions used by the statements\<close>

text \<open>
  What can follow a value inside a text that \<^verbatim>\<open>json.dumps\<close> wrote: the end of the
  text or one of the delimiters \<^verbatim>\<open>,\<close> \<^verbatim>\<open>]\<close> \<^verbatim>\<open>}\<close>.
\<close>

definition value_end :: "string \<Rightarrow> bool" where
  "value_end rest = (rest = [] \<or> hd rest = CHR '','' \<or> hd rest = CHR '']'' \<or> hd rest = CHR ''}'')"

text \<open>
  A depth budget that is enough to read a value back; the values in which no dict
  holds a key twice; reading a value back from its \<^verbatim>\<open>json.dumps\<close> text, whatever
  follows it; how such a text starts; and one \<^verbatim>\<open>key: value\<close> item of an object.
\<close>

fun fuel_needed :: "pyval \<Rightarrow> nat" where
  "fuel_needed (PList xs) = Suc (sum_list (map (\<lambda>x. Suc (fuel_needed x)) xs))"
| "fuel_needed (PDict d) = Suc (sum_list (map (\<lambda>(k, v). Suc (fuel_needed v)) d))"
| "fuel_needed v = 1"

fun wf_pyval :: "pyval \<Rightarrow> bool" where
  "wf_pyval (PList xs) = list_all wf_pyval xs"
| "wf_pyval (PDict d) = (distinct (map fst d) \<and> list_all (\<lambda>(k, v). wf_pyval v) d)"
| "wf_pyval v = True"

definition round_trips :: "pyval \<Rightarrow> bool" where
  "round_trips v = (\<forall>fuel rest. value_end rest \<longrightarrow> fuel_needed v \<le> fuel \<longrightarrow>
     scan_once fuel (json_dumps v @ rest) = Inr (v, rest))"

definition value_start :: "string \<Rightarrow> bool" where
  "value_start s = (\<exists>c r. s = c # r \<and> \<not> is_ws c \<and> c \<noteq> CHR '']'' \<and> c \<noteq> CHR ''}'' \<and> c \<noteq> CHR '','')"

definition dumps_item :: "string \<times> pyval \<Rightarrow> string" where
  "dumps_item kv = encode_basestring_ascii (fst kv) @ '': '' @ json_dumps (snd kv)"

section \<open>The click state and its callbacks\<close>

text \<open>
  \<^verbatim>\<open>STREETS = ['Dundas', 'Queen', 'Adelaide', 'Richmond', 'Wellington', 'Front']\<close>
\<close>

definition STREETS :: "string list" where
  "STREETS = [''Dundas'', ''Queen'', ''Adelaide'', ''Richmond'', ''Wellington'', ''Front'']"

text \<open>
  \<^verbatim>\<open>def generate_row_class(clicked)\<close>
\<close>

definition generate_row_class :: "bool \<Rightarrow> string" where
  "generate_row_class clicked = (if clicked then ''selected'' else ''notselected'')"

text \<open>
  \<^verbatim>\<open>obj[key]\<close> for a string key: \<^verbatim>\<open>KeyError\<close> on a dict without the key,
  \<^verbatim>\<open>TypeError\<close> on every value that is not a dict.
\<close>

definition getitem :: "pyval \<Rightarrow> string \<Rightarrow> py_error + pyval" where
  "getitem obj key =
     (case obj of
        PDict d \<Rightarrow> (case map_of d key of None \<Rightarrow> Inl KeyError | Some v \<Rightarrow> Inr v)
      | _ \<Rightarrow> Inl TypeError)"

text \<open>
  \<^verbatim>\<open>obj[key] = v\<close> for a string key.
\<close>

definition setitem :: "pyval \<Rightarrow> string \<Rightarrow> pyval \<Rightarrow> py_error + pyval" where
  "setitem obj key v =
     (case obj of
        PDict d \<Rightarrow> Inr (PDict (dict_set d key v))
      | _ \<Rightarrow> Inl TypeError)"

text \<open>
  \<^verbatim>\<open>n > v\<close> for an int \<open>n\<close>: defined against an int or a bool, \<^verbatim>\<open>TypeError\<close> otherwise.
\<close>

definition int_gt :: "int \<Rightarrow> pyval \<Rightarrow> py_error + bool" where
  "int_gt n v =
     (case v of
        PInt m \<Rightarrow> Inr (n > m)
      | PBool b \<Rightarrow> Inr (n > (if b then 1 else 0))
      | _ \<Rightarrow> Inl TypeError)"

text \<open>
  The truth value of a Python value, as \<^verbatim>\<open>if\<close> tests it.
\<close>

fun truthy :: "pyval \<Rightarrow> bool" where
  "truthy PNone = False"
| "truthy (PBool b) = b"
| "truthy (PInt i) = (i \<noteq> 0)"
| "truthy (PStr s) = (s \<noteq> [])"
| "truthy (PList xs) = (xs \<noteq> [])"
| "truthy (PDict d) = (d \<noteq> [])"

text \<open>
  \<^verbatim>\<open>dict(n_clicks=..., clicked=...)\<close>, the entry of one street.
\<close>

definition click_obj :: "int \<Rightarrow> bool \<Rightarrow> pyval" where
  "click_obj n c = PDict [(''n_clicks'', PInt n), (''clicked'', PBool c)]"

text \<open>
  \<^verbatim>\<open>INITIAL_STATE = OrderedDict([(street, dict(n_clicks=(1 if street == 'Dundas' else 0),
  clicked=(street == 'Dundas'))) for street in STREETS])\<close>
\<close>

definition INITIAL_STATE :: pyval where
  "INITIAL_STATE =
     PDict (OrderedDict (map (\<lambda>street.
       (street, click_obj (if street = ''Dundas'' then 1 else 0) (street = ''Dundas''))) STREETS))"

definition deserialise_clicks :: "string \<Rightarrow> py_error + pyval" where
  "deserialise_clicks clicks_json = json_loads clicks_json"

definition serialise_clicks :: "pyval \<Rightarrow> string" where
  "serialise_clicks clicks_dict = json_dumps clicks_dict"

text \<open>
  The body of the loop of \<^verbatim>\<open>button_click\<close>, for one \<^verbatim>\<open>click_obj\<close> and its new count.
\<close>

definition update_click_obj :: "pyval \<Rightarrow> int \<Rightarrow> py_error + pyval" where
  "update_click_obj obj n_click_new =
     py_bind (getitem obj ''n_clicks'') (\<lambda>old.
     py_bind (int_gt n_click_new old) (\<lambda>newer.
       if newer then
         py_bind (setitem obj ''clicked'' (PBool True)) (\<lambda>obj'.
           setitem obj' ''n_clicks'' (PInt n_click_new))
       else setitem obj ''clicked'' (PBool False)))"

text \<open>
  \<^verbatim>\<open>for click_obj, n_click_new in zip(clicks.values(), rows)\<close>: the loop ends with the
  shorter of the two sequences, and entries beyond it are left as they are.
\<close>

fun click_loop :: "(string \<times> pyval) list \<Rightarrow> int list \<Rightarrow> py_error + (string \<times> pyval) list" where
  "click_loop [] rows = Inr []"
| "click_loop clicks [] = Inr clicks"
| "click_loop ((street, obj) # clicks) (n_click_new # rows) =
     py_bind (update_click_obj obj n_click_new) (\<lambda>obj'.
     py_bind (click_loop clicks rows) (\<lambda>clicks'. Inr ((street, obj') # clicks')))"

text \<open>
  \<^verbatim>\<open>def button_click(*args)\<close>, with \<^verbatim>\<open>rows = args[:-1]\<close> the click counts of the rows and
  \<^verbatim>\<open>old_clicks = args[-1]\<close> the stored JSON text. \<^verbatim>\<open>clicks.values()\<close> raises
  \<^verbatim>\<open>AttributeError\<close> when the text does not hold an object.
\<close>

definition button_click :: "int list \<Rightarrow> string \<Rightarrow> py_error + string" where
  "button_click rows old_clicks =
     py_bind (deserialise_clicks old_clicks) (\<lambda>clicks.
       case clicks of
         PDict d \<Rightarrow> py_bind (click_loop d rows) (\<lambda>d'. Inr (serialise_clicks (PDict d')))
       | _ \<Rightarrow> Inl AttributeError)"

text \<open>
  \<^verbatim>\<open>[street for street, click_obj in state_data_dict.items() if click_obj['clicked']]\<close>
\<close>

fun clicked_streets :: "(string \<times> pyval) list \<Rightarrow> py_error + string list" where
  "clicked_streets [] = Inr []"
| "clicked_streets ((street, obj) # items) =
     py_bind (getitem obj ''clicked'') (\<lambda>c.
     py_bind (clicked_streets items) (\<lambda>clicked.
       Inr (if truthy c then street # clicked else clicked)))"

text \<open>
  \<^verbatim>\<open>def update_selected_street(state_data)\<close>: the list of the streets flagged clicked,
  or \<^verbatim>\<open>[STREETS[0]]\<close> when there is none.
\<close>

definition update_selected_street :: "string \<Rightarrow> py_error + string list" where
  "update_selected_street state_data =
     py_bind (deserialise_clicks state_data) (\<lambda>state_data_dict.
       case state_data_dict of
         PDict d \<Rightarrow>
           py_bind (clicked_streets d) (\<lambda>clicked.
             Inr (if clicked \<noteq> [] then clicked else [STREETS ! 0]))
       | _ \<Rightarrow> Inl AttributeError)"

text \<open>
  The callback \<^verbatim>\<open>update_clicked_row(street)\<close> that \<^verbatim>\<open>create_row_click_function(streetname)\<close>
  registers: \<open>street\<close> is the list \<^verbatim>\<open>update_selected_street\<close> returned, of which
  element 0 is read.
\<close>

definition create_row_click_function :: "string \<Rightarrow> string list \<Rightarrow> string" where
  "create_row_click_function streetname street =
     (if street \<noteq> [] then generate_row_class (streetname = street ! 0)
      else generate_row_class False)"

definition dict_keys :: "pyval \<Rightarrow> string list" where
  "dict_keys v = (case v of PDict d \<Rightarrow> map fst d | _ \<Rightarrow> [])"

text \<open>
  \<^verbatim>\<open>[create_row_click_function(key) for key in INITIAL_STATE.keys()]\<close>
\<close>

definition row_click_functions :: "(string \<times> (string list \<Rightarrow> string)) list" where
  "row_click_functions = map (\<lambda>key. (key, create_row_click_function key)) (dict_keys INITIAL_STATE)"

text \<open>
  A sequence of click reports, each handled by \<^verbatim>\<open>button_click\<close> on the state the
  previous one stored.
\<close>

fun button_clicks :: "int list list \<Rightarrow> string \<Rightarrow> py_error + string" where
  "button_clicks [] state_data = Inr state_data"
| "button_clicks (rows # reports) state_data =
     py_bind (button_click rows state_data) (button_clicks reports)"

text \<open>
  The selection state as typed data: each entity with its click count and its selected
  flag, in order. \<open>state_dict\<close> is the Python value that holds it, \<open>reduce_selection\<close>
  the transition of section 4.3 of the specification (a strictly greater reported count
  selects the entity and is stored; otherwise the entity is unselected and keeps its
  count), \<open>first_selected_or_default\<close> the specification's
  \<^verbatim>\<open>firstWhere(SelectionState, isSelected) ?? defaultEntity\<close>, and \<open>flagged_streets\<close>
  the entities flagged selected, in order.
\<close>

type_synonym selection = "(string \<times> int \<times> bool) list"

definition state_dict :: "selection \<Rightarrow> pyval" where
  "state_dict sel = PDict (map (\<lambda>(street, n, c). (street, click_obj n c)) sel)"

fun reduce_selection :: "selection \<Rightarrow> int list \<Rightarrow> selection" where
  "reduce_selection [] rows = []"
| "reduce_selection sel [] = sel"
| "reduce_selection ((street, n, c) # sel) (new # rows) =
     (if new > n then (street, new, True) else (street, n, False)) # reduce_selection sel rows"

definition initial_selection :: selection where
  "initial_selection = map (\<lambda>street. (street, if street = ''Dundas'' then 1 else 0, street = ''Dundas'')) STREETS"

definition first_selected_or_default :: "selection \<Rightarrow> string" where
  "first_selected_or_default sel =
     (case find (\<lambda>(street, n, c). c) sel of
        Some (street, n, c) \<Rightarrow> street
      | None \<Rightarrow> ''Dundas'')"

definition flagged_streets :: "selection \<Rightarrow> string list" where
  "flagged_streets sel = map fst (filter (\<lambda>(street, n, c). c) sel)"

section \<open>Cell styling\<close>

text \<open>
  The cells that \<^verbatim>\<open>after_cell_class\<close> compares are the \<^verbatim>\<open>float64\<close> values of the pivoted
  frames, so \<^verbatim>\<open>after - before\<close> is the subtraction of IEEE 754 binary64: the exact
  difference, rounded to the nearest double, a tie to the even significand. A finite
  double is \<open>Finite m e\<close>, the number \<open>m * 2 ^ e\<close> with \<open>\<bar>m\<bar> < 2 ^ 53\<close> and
  \<open>- 1074 \<le> e \<le> 971\<close>; the two zeros are not told apart, as no comparison does.
\<close>

datatype float64 = Finite int int | PosInf | NegInf | NaN

text \<open>
  The values of the datatype that are doubles.
\<close>

definition is_float64 :: "float64 \<Rightarrow> bool" where
  "is_float64 x =
     (case x of
        Finite m e \<Rightarrow> \<bar>m\<bar> < 2 ^ 53 \<and> - 1074 \<le> e \<and> e \<le> 971
      | _ \<Rightarrow> True)"

text \<open>
  The number a finite double stands for.
\<close>

fun valof :: "float64 \<Rightarrow> real" where
  "valof (Finite m e) = of_int m * 2 powi e"
| "valof PosInf = 0"
| "valof NegInf = 0"
| "valof NaN = 0"

text \<open>
  The number of binary digits of a natural number, and \<open>N / 2 ^ s\<close> rounded to the nearest
  natural number, a tie to the even one.
\<close>

fun bit_length :: "nat \<Rightarrow> nat" where
  "bit_length n = (if n = 0 then 0 else Suc (bit_length (n div 2)))"

definition round_half_even :: "nat \<Rightarrow> nat \<Rightarrow> nat" where
  "round_half_even N s =
     (let q = N div 2 ^ s; r = N mod 2 ^ s; h = 2 ^ (s - 1)
      in if r < h then q else if r > h then q + 1 else if even q then q else q + 1)"

text \<open>
  \<open>N * 2 ^ E\<close> rounded to 53 significant bits. \<open>None\<close> is the overflow: the rounded value
  is beyond the largest finite double.
\<close>

definition round_magnitude :: "nat \<Rightarrow> int \<Rightarrow> (nat \<times> int) option" where
  "round_magnitude N E =
     (let n = bit_length N
      in if n \<le> 53 then Some (N, E)
         else
           (let s = n - 53;
                q = round_half_even N s;
                result = (if q = 2 ^ 53 then (2 ^ 52, E + int s + 1) else (q, E + int s))
            in if 971 < snd result then None else Some result))"

text \<open>
  The double nearest to \<open>M * 2 ^ E\<close>, for \<open>- 1074 \<le> E\<close>; an overflow gives the infinity
  of the sign of \<open>M\<close>.
\<close>

definition round_float64 :: "int \<Rightarrow> int \<Rightarrow> float64" where
  "round_float64 M E =
     (case round_magnitude (nat \<bar>M\<bar>) E of
        None \<Rightarrow> (if M < 0 then NegInf else PosInf)
      | Some (q, E') \<Rightarrow> Finite (if M < 0 then - int q else int q) E')"

text \<open>
  \<^verbatim>\<open>x - y\<close> on doubles. Both operands are written with the smaller of the two exponents,
  where their difference is an integer multiple of \<open>2 ^ E\<close>, and the exact difference is
  rounded. The cases with an infinity or NaN are those of IEEE 754.
\<close>

fun fsub :: "float64 \<Rightarrow> float64 \<Rightarrow> float64" where
  "fsub (Finite m1 e1) (Finite m2 e2) =
     (let E = min e1 e2
      in round_float64 (m1 * 2 ^ nat (e1 - E) - m2 * 2 ^ nat (e2 - E)) E)"
| "fsub NaN y = NaN"
| "fsub x NaN = NaN"
| "fsub PosInf PosInf = NaN"
| "fsub NegInf NegInf = NaN"
| "fsub PosInf y = PosInf"
| "fsub NegInf y = NegInf"
| "fsub x PosInf = NegInf"
| "fsub x NegInf = PosInf"

text \<open>
  \<^verbatim>\<open>x > k\<close> and \<^verbatim>\<open>x < k\<close> of Python for a float and an int: the two numbers are compared
  exactly, and every comparison with NaN is false.
\<close>

fun float_gt_int :: "float64 \<Rightarrow> int \<Rightarrow> bool" where
  "float_gt_int (Finite m e) k = (valof (Finite m e) > of_int k)"
| "float_gt_int PosInf k = True"
| "float_gt_int NegInf k = False"
| "float_gt_int NaN k = False"

fun float_lt_int :: "float64 \<Rightarrow> int \<Rightarrow> bool" where
  "float_lt_int (Finite m e) k = (valof (Finite m e) < of_int k)"
| "float_lt_int PosInf k = False"
| "float_lt_int NegInf k = True"
| "float_lt_int NaN k = False"

text \<open>
  \<^verbatim>\<open>THRESHOLD = 1\<close>, a Python int.
\<close>

definition THRESHOLD :: int where
  "THRESHOLD = 1"

text \<open>
  \<^verbatim>\<open>def after_cell_class(before, after)\<close>
\<close>

definition after_cell_class :: "float64 \<Rightarrow> float64 \<Rightarrow> string" where
  "after_cell_class before after =
     (if float_gt_int (fsub after before) THRESHOLD then ''worse''
      else if float_lt_int (fsub after before) (- THRESHOLD) then ''better''
      else ''same'')"

text \<open>
  Used in the proofs: the magnitude that \<open>round_magnitude\<close> returns is greater than 1, which
  an overflow is.
\<close>

definition passes_one :: "(nat \<times> int) option \<Rightarrow> bool" where
  "passes_one res = (case res of None \<Rightarrow> True | Some (q, E') \<Rightarrow> 1 < real q * 2 powi E')"

section \<open>The datasets and the chart queries\<close>

text \<open>
  A row of \<^verbatim>\<open>data/daily_fake.csv\<close> or \<^verbatim>\<open>data/baselines_fake.csv\<close>, with the columns the
  code reads. The two data frames \<^verbatim>\<open>DATA\<close> and \<^verbatim>\<open>BASELINE\<close> are lists of rows in file
  order and are parameters of the queries, the files not being part of the source.
\<close>

record measurement =
  street :: string
  direction :: string
  period :: string
  day_type :: string
  date :: string
  tt :: real

text \<open>
  \<^verbatim>\<open>DIRECTIONS = dict(EB='Eastbound', WB='Westbound')\<close>
\<close>

definition DIRECTIONS :: "(string \<times> string) list" where
  "DIRECTIONS = [(''EB'', ''Eastbound''), (''WB'', ''Westbound'')]"

text \<open>
  \<^verbatim>\<open>go.Bar(x=..., y=...)\<close>, the layout (title, x axis title, y axis title) and the
  figure \<^verbatim>\<open>{'layout': layout, 'data': data}\<close>.
\<close>

datatype bar = Bar "string list" "real list"

datatype layout = Layout string string string

datatype figure = Figure layout "bar list"

text \<open>
  \<^verbatim>\<open>def filter_graph_data(street, direction, day_type='Weekday', period='AMPK')\<close>:
  boolean-mask selection, which keeps the selected rows in the order of the frame.
\<close>

definition filter_graph_data ::
  "measurement list \<Rightarrow> measurement list \<Rightarrow> string \<Rightarrow> string \<Rightarrow> string \<Rightarrow> string
     \<Rightarrow> measurement list \<times> measurement list" where
  "filter_graph_data DATA BASELINE street direction day_type period =
     (let filtered = filter (\<lambda>row. measurement.street row = street \<and>
                                    measurement.period row = period \<and>
                                    measurement.day_type row = day_type \<and>
                                    measurement.direction row = direction) DATA;
          filtered_baseline = filter (\<lambda>row. measurement.street row = street \<and>
                                    measurement.period row = period \<and>
                                    measurement.day_type row = day_type \<and>
                                    measurement.direction row = direction) BASELINE
      in (filtered, filtered_baseline))"
  for street direction day_type period

text \<open>
  \<^verbatim>\<open>def generate_graph(street, direction, day_type='Weekday', period='AMPK')\<close>;
  \<^verbatim>\<open>DIRECTIONS[direction]\<close> raises \<^verbatim>\<open>KeyError\<close> for an unknown direction code.
\<close>

definition generate_graph ::
  "measurement list \<Rightarrow> measurement list \<Rightarrow> string \<Rightarrow> string \<Rightarrow> string \<Rightarrow> string
     \<Rightarrow> py_error + figure" where
  "generate_graph DATA BASELINE street direction day_type period =
     (case filter_graph_data DATA BASELINE street direction day_type period of
        (after_data, base_data) \<Rightarrow>
          (let data = [Bar (map measurement.date after_data) (map measurement.tt after_data)]
           in case map_of DIRECTIONS direction of
                None \<Rightarrow> Inl KeyError
              | Some title \<Rightarrow> Inr (Figure (Layout title ''Date'' ''Travel Time (min)'') data)))"
  for street direction day_type period

text \<open>
  The four-way key of a series query.
\<close>

definition matches :: "string \<Rightarrow> string \<Rightarrow> string \<Rightarrow> string \<Rightarrow> measurement \<Rightarrow> bool" where
  "matches e d p t row =
     (measurement.street row = e \<and> measurement.direction row = d \<and>
      measurement.period row = p \<and> measurement.day_type row = t)"

section \<open>The table query\<close>

text \<open>
  The mean of a group of travel times and \<^verbatim>\<open>DataFrame.round(1)\<close> are computed by pandas
  on doubles. They are the parameters \<open>mean\<close> and \<open>round1\<close> of the model: what is modelled
  is which values are grouped, averaged and rounded, and where the results are placed.
\<close>
















section \<open>Decoding what json.dumps wrote\<close>

subsection \<open>Strings\<close>

lemma lt16_cases:
  "n < (16::nat) \<Longrightarrow> n = 0 \<or> n = 1 \<or> n = 2 \<or> n = 3 \<or> n = 4 \<or> n = 5 \<or> n = 6 \<or> n = 7
     \<or> n = 8 \<or> n = 9 \<or> n = 10 \<or> n = 11 \<or> n = 12 \<or> n = 13 \<or> n = 14 \<or> n = 15"
  by arith

lemma hex_val_hexdigit: "n < 16 \<Longrightarrow> hex_val (hexdigit n) = Some n"
  by (drule lt16_cases) (auto simp: hexdigit_def hex_val_def)

lemma of_char_lt_256: "(of_char (c::char) :: nat) < 256"
  by (cases c) simp

lemma escape_uXXXX_shape:
  assumes n: "n < 256"
  shows "\<exists>h. escape_uXXXX n = CHR 0x5C # CHR ''u'' # h \<and> length h = 4
    \<and> (\<forall>t. decode_uXXXX (h @ t) = Some n)"
proof -
  from n have z: "n div 4096 mod 16 = 0" "n div 256 mod 16 = 0" by simp_all
  have h0: "hex_val (hexdigit 0) = Some 0" by (rule hex_val_hexdigit) simp
  have h1: "hex_val (hexdigit (n div 16 mod 16)) = Some (n div 16 mod 16)"
    by (rule hex_val_hexdigit) simp
  have h2: "hex_val (hexdigit (n mod 16)) = Some (n mod 16)"
    by (rule hex_val_hexdigit) simp
  have "n div 16 mod 16 = n div 16" using n by simp
  then have e: "(n div 16 mod 16) * 16 + n mod 16 = n" by simp
  let ?h = "[hexdigit 0, hexdigit 0, hexdigit (n div 16 mod 16), hexdigit (n mod 16)]"
  have "escape_uXXXX n = CHR 0x5C # CHR ''u'' # ?h"
    unfolding escape_uXXXX_def z by (rule refl)
  moreover have "length ?h = 4" by simp
  moreover have "decode_uXXXX (?h @ t) = Some n" for t
    unfolding decode_uXXXX_def
    by (simp add: h0 h1 h2 e del: mod_div_trivial)
  ultimately show ?thesis by blast
qed

lemma scanstring_escape_uXXXX:
  assumes n: "n < 256"
  shows "scanstring (escape_uXXXX n @ t) = cons_chunk (char_of n) (scanstring t)"
proof -
  obtain h where h: "escape_uXXXX n = CHR 0x5C # CHR ''u'' # h" "length h = 4"
    "\<forall>t. decode_uXXXX (h @ t) = Some n"
    using escape_uXXXX_shape [OF n] by blast
  show ?thesis
    by (simp add: h n)
qed

lemma scanstring_escape_char:
  "scanstring (escape_char c @ t) = cons_chunk c (scanstring t)"
proof -
  consider (special) "c \<in> {CHR 0x22, CHR 0x5C, CHR 0x0A, CHR 0x0D, CHR 0x09, CHR 0x08, CHR 0x0C}"
    | (plain) "c \<notin> {CHR 0x22, CHR 0x5C, CHR 0x0A, CHR 0x0D, CHR 0x09, CHR 0x08, CHR 0x0C}"
        "32 \<le> (of_char c :: nat) \<and> (of_char c :: nat) \<le> 126"
    | (uni) "c \<notin> {CHR 0x22, CHR 0x5C, CHR 0x0A, CHR 0x0D, CHR 0x09, CHR 0x08, CHR 0x0C}"
        "\<not> (32 \<le> (of_char c :: nat) \<and> (of_char c :: nat) \<le> 126)"
    by blast
  then show ?thesis
  proof cases
    case special
    then show ?thesis
      by (auto simp: escape_char_def BACKSLASH_def)
  next
    case plain
    then show ?thesis
      by (auto simp: escape_char_def)
  next
    case uni
    have lt: "(of_char c :: nat) < 256" by (rule of_char_lt_256)
    from uni have "escape_char c = escape_uXXXX (of_char c)"
      by (auto simp: escape_char_def)
    then show ?thesis
      by (simp add: scanstring_escape_uXXXX [OF lt])
  qed
qed

lemma scanstring_escaped:
  "scanstring (concat (map escape_char s) @ CHR 0x22 # rest) = Inr (s, rest)"
  by (induction s) (simp_all add: scanstring_escape_char cons_chunk_def)

subsection \<open>Integers\<close>

declare str_nat.simps [simp del]

lemma lt10_cases:
  "n < (10::nat) \<Longrightarrow> n = 0 \<or> n = 1 \<or> n = 2 \<or> n = 3 \<or> n = 4 \<or> n = 5 \<or> n = 6 \<or> n = 7
     \<or> n = 8 \<or> n = 9"
  by arith

lemma digit_hexdigit:
  "n < 10 \<Longrightarrow> is_digit (hexdigit n) \<and> digit_val (hexdigit n) = n
     \<and> (hexdigit n = CHR ''0'') = (n = 0)"
  by (drule lt10_cases) (auto simp: hexdigit_def is_digit_def digit_val_def)

lemma str_nat_digits: "\<forall>c \<in> set (str_nat n). is_digit c"
proof (induction n rule: str_nat.induct)
  case (1 n)
  show ?case
  proof (cases "n < 10")
    case True
    then show ?thesis by (simp add: str_nat.simps [of n] digit_hexdigit)
  next
    case False
    with 1 show ?thesis by (simp add: str_nat.simps [of n] digit_hexdigit)
  qed
qed

lemma str_nat_nonempty: "str_nat n \<noteq> []"
  by (simp add: str_nat.simps [of n])

lemma int_of_digits_snoc:
  "int_of_digits (ds @ [d]) = 10 * int_of_digits ds + int (digit_val d)"
  by (simp add: int_of_digits_def)

lemma int_of_digits_str_nat: "int_of_digits (str_nat n) = int n"
proof (induction n rule: str_nat.induct)
  case (1 n)
  show ?case
  proof (cases "n < 10")
    case True
    then show ?thesis
      by (simp add: str_nat.simps [of n] int_of_digits_def digit_hexdigit)
  next
    case False
    then have "int_of_digits (str_nat n) = 10 * int (n div 10) + int (n mod 10)"
      using 1 by (simp add: str_nat.simps [of n] int_of_digits_snoc digit_hexdigit)
    also have "\<dots> = int n" by presburger
    finally show ?thesis .
  qed
qed

lemma str_nat_hd_zero: "(hd (str_nat n) = CHR ''0'') = (n = 0)"
proof (induction n rule: str_nat.induct)
  case (1 n)
  show ?case
  proof (cases "n < 10")
    case True
    then show ?thesis by (simp add: str_nat.simps [of n] digit_hexdigit)
  next
    case False
    then have "hd (str_nat n) = hd (str_nat (n div 10))"
      by (simp add: str_nat.simps [of n] str_nat_nonempty)
    with 1 False show ?thesis by simp
  qed
qed

lemma str_nat_0: "str_nat 0 = ''0''"
  by (simp add: str_nat.simps [of 0] hexdigit_def)

lemma value_end_no_frac: "value_end rest \<Longrightarrow> \<not> has_frac rest"
  by (cases rest) (auto simp: value_end_def has_frac_def split: list.split)

lemma value_end_no_exp: "value_end rest \<Longrightarrow> \<not> has_exp rest"
  by (cases rest) (auto simp: value_end_def has_exp_def)

lemma value_end_no_digit: "value_end rest \<Longrightarrow> rest \<noteq> [] \<Longrightarrow> \<not> is_digit (hd rest)"
  by (cases rest) (auto simp: value_end_def is_digit_def)

lemma span_digits:
  assumes "\<forall>c\<in>set ds. is_digit c" and "value_end rest"
  shows "takeWhile is_digit (ds @ rest) = ds" and "dropWhile is_digit (ds @ rest) = rest"
proof -
  have r: "takeWhile is_digit rest = []" "dropWhile is_digit rest = rest"
    using value_end_no_digit [OF assms(2)] by (cases rest; simp)+
  show "takeWhile is_digit (ds @ rest) = ds"
    using assms(1) by (induction ds) (simp_all add: r)
  show "dropWhile is_digit (ds @ rest) = rest"
    using assms(1) by (induction ds) (simp_all add: r)
qed

lemma match_nat:
  assumes ve: "value_end rest"
  shows "match_number (str_nat n @ rest) = Some (Inr (PInt (int n), rest))"
proof -
  obtain d ds where dds: "str_nat n = d # ds"
    using str_nat_nonempty [of n] by (cases "str_nat n") auto
  have dig: "is_digit d" "\<forall>c\<in>set ds. is_digit c"
    using str_nat_digits [of n] by (simp_all add: dds)
  have notneg: "d \<noteq> CHR ''-''" using dig(1) by (auto simp: is_digit_def)
  have tw: "takeWhile is_digit (ds @ rest) = ds" "dropWhile is_digit (ds @ rest) = rest"
    using span_digits [OF dig(2) ve] by simp_all
  have nf: "\<not> has_frac rest" "\<not> has_exp rest"
    using ve by (simp_all add: value_end_no_frac value_end_no_exp)
  show ?thesis
  proof (cases "n = 0")
    case True
    then show ?thesis
      using nf by (simp add: str_nat_0 match_number_def is_digit_def int_of_digits_def digit_val_def)
  next
    case False
    then have "d \<noteq> CHR ''0''" using str_nat_hd_zero [of n] by (simp add: dds)
    moreover have "int_of_digits (d # ds) = int n"
      using int_of_digits_str_nat [of n] by (simp add: dds)
    ultimately show ?thesis
      using nf dig(1) notneg by (simp add: dds match_number_def tw)
  qed
qed

lemma match_str_int:
  assumes ve: "value_end rest"
  shows "match_number (str_int i @ rest) = Some (Inr (PInt i, rest))"
proof (cases "i < 0")
  case False
  then show ?thesis using match_nat [OF ve, of "nat i"] by (simp add: str_int_def)
next
  case True
  define n where "n = nat (- i)"
  have n: "n \<noteq> 0" "int n = - i" using True by (simp_all add: n_def)
  obtain d ds where dds: "str_nat n = d # ds"
    using str_nat_nonempty [of n] by (cases "str_nat n") auto
  have dig: "is_digit d" "\<forall>c\<in>set ds. is_digit c"
    using str_nat_digits [of n] by (simp_all add: dds)
  have tw: "takeWhile is_digit (ds @ rest) = ds" "dropWhile is_digit (ds @ rest) = rest"
    using span_digits [OF dig(2) ve] by simp_all
  have nf: "\<not> has_frac rest" "\<not> has_exp rest"
    using ve by (simp_all add: value_end_no_frac value_end_no_exp)
  have "d \<noteq> CHR ''0''" using str_nat_hd_zero [of n] n(1) by (simp add: dds)
  moreover have "int_of_digits (d # ds) = int n"
    using int_of_digits_str_nat [of n] by (simp add: dds)
  ultimately show ?thesis
    using nf dig(1) n(2) True by (simp add: str_int_def n_def [symmetric] dds match_number_def tw)
qed

lemma str_int_head:
  "\<exists>c r. str_int i = c # r \<and> (is_digit c \<or> c = CHR ''-'')"
proof (cases "i < 0")
  case True
  then show ?thesis by (simp add: str_int_def)
next
  case False
  obtain c r where "str_nat (nat i) = c # r"
    using str_nat_nonempty [of "nat i"] by (cases "str_nat (nat i)") auto
  moreover from this have "is_digit c"
    using str_nat_digits [of "nat i"] by simp
  ultimately show ?thesis using False by (simp add: str_int_def)
qed

subsection \<open>Values, arrays and objects\<close>

lemma value_start_dumps: "value_start (json_dumps v @ rest)"
proof (cases v)
  case (PInt i)
  obtain c r where "str_int i = c # r" "is_digit c \<or> c = CHR ''-''"
    using str_int_head [of i] by blast
  then show ?thesis using PInt by (auto simp: value_start_def is_ws_def is_digit_def)
qed (auto simp: value_start_def is_ws_def encode_basestring_ascii_def)

lemma skip_ws_value_start: "value_start s \<Longrightarrow> skip_ws s = s"
  by (auto simp: value_start_def skip_ws_def)

lemma fuel_needed_pos: "0 < fuel_needed v"
  by (cases v) simp_all

lemma scan_once_PInt:
  assumes "value_end rest"
  shows "scan_once (Suc n) (str_int i @ rest) = Inr (PInt i, rest)"
proof -
  obtain c r where cr: "str_int i = c # r" "is_digit c \<or> c = CHR ''-''"
    using str_int_head [of i] by blast
  have m: "match_number (c # r @ rest) = Some (Inr (PInt i, rest))"
    using match_str_int [OF assms, of i] by (simp add: cr)
  from cr(2) have "c \<noteq> CHR 0x22" "c \<noteq> CHR ''{''" "c \<noteq> CHR ''[''" "c \<noteq> CHR ''n''"
    "c \<noteq> CHR ''t''" "c \<noteq> CHR ''f''"
    by (auto simp: is_digit_def)
  then show ?thesis
    by (simp add: cr m)
qed

lemma scan_once_PStr:
  "scan_once (Suc n) (encode_basestring_ascii s @ rest) = Inr (PStr s, rest)"
  by (simp add: encode_basestring_ascii_def scanstring_escaped)

lemma JSONArray_items:
  assumes "\<forall>x \<in> set xs. round_trips x" and "xs \<noteq> []" and "value_end rest"
    and "sum_list (map (\<lambda>x. Suc (fuel_needed x)) xs) \<le> fuel"
  shows "JSONArray fuel acc (join '', '' (map json_dumps xs) @ '']'' @ rest) = Inr (PList (acc @ xs), rest)"
  using assms
proof (induction xs arbitrary: fuel acc)
  case Nil
  then show ?case by simp
next
  case (Cons x xs)
  from Cons.prems(4) obtain n where fuel: "fuel = Suc n" by (cases fuel) auto
  have rt: "round_trips x" using Cons.prems(1) by simp
  show ?case
  proof (cases xs)
    case Nil
    have "scan_once n (json_dumps x @ '']'' @ rest) = Inr (x, '']'' @ rest)"
      using rt Cons.prems(4) by (simp add: round_trips_def fuel Nil value_end_def)
    then show ?thesis
      by (simp add: fuel Nil skip_ws_def is_ws_def)
  next
    case (Cons y ys)
    let ?tail = "join '', '' (map json_dumps xs) @ '']'' @ rest"
    have "scan_once n (json_dumps x @ '', '' @ ?tail) = Inr (x, '', '' @ ?tail)"
      using rt Cons.prems(4) by (simp add: round_trips_def fuel value_end_def)
    moreover have "value_start ?tail"
      using value_start_dumps [of y] by (simp add: Cons value_start_def) (cases ys; auto)
    then have "skip_ws (CHR '' '' # ?tail) = ?tail"
      by (simp add: skip_ws_def is_ws_def) (simp add: skip_ws_value_start [unfolded skip_ws_def])
    moreover have "JSONArray n (acc @ [x]) ?tail = Inr (PList ((acc @ [x]) @ xs), rest)"
      using Cons.prems Cons by (intro Cons.IH) (auto simp: fuel)
    ultimately show ?thesis
      by (simp add: fuel Cons skip_ws_def is_ws_def)
  qed
qed

lemma json_dumps_PDict:
  "json_dumps (PDict d) = ''{'' @ join '', '' (map dumps_item d) @ ''}''"
proof -
  have "(\<lambda>(k, v). encode_basestring_ascii k @ '': '' @ json_dumps v) = dumps_item"
    by (auto simp: dumps_item_def fun_eq_iff)
  then show ?thesis by simp
qed

lemma dict_set_fresh: "k \<notin> fst ` set d \<Longrightarrow> dict_set d k v = d @ [(k, v)]"
  by (induction d) auto

lemma foldl_dict_set_distinct:
  "distinct (map fst (acc @ d)) \<Longrightarrow> foldl (\<lambda>d (k, v). dict_set d k v) acc d = acc @ d"
proof (induction d arbitrary: acc)
  case Nil
  then show ?case by simp
next
  case (Cons kv d)
  obtain k v where kv: "kv = (k, v)" by (cases kv)
  from Cons.prems have fresh: "k \<notin> fst ` set acc" by (auto simp: kv)
  from Cons.prems have "distinct (map fst ((acc @ [(k, v)]) @ d))" by (auto simp: kv)
  then have "foldl (\<lambda>d (k, v). dict_set d k v) (acc @ [(k, v)]) d = (acc @ [(k, v)]) @ d"
    by (rule Cons.IH)
  then show ?case by (simp add: kv dict_set_fresh [OF fresh])
qed

lemma OrderedDict_distinct: "distinct (map fst d) \<Longrightarrow> OrderedDict d = d"
  using foldl_dict_set_distinct [of "[]" d] by (simp add: OrderedDict_def)

lemma JSONObject_items:
  assumes "\<forall>kv \<in> set d. round_trips (snd kv)" and "d \<noteq> []" and "value_end rest"
    and "sum_list (map (\<lambda>(k, v). Suc (fuel_needed v)) d) \<le> fuel"
  shows "\<exists>t. join '', '' (map dumps_item d) = CHR 0x22 # t
           \<and> JSONObject fuel acc (t @ ''}'' @ rest) = Inr (PDict (OrderedDict (acc @ d)), rest)"
  using assms
proof (induction d arbitrary: fuel acc)
  case Nil
  then show ?case by simp
next
  case (Cons kv d)
  obtain k v where kv: "kv = (k, v)" by (cases kv)
  from Cons.prems(4) obtain n where fuel: "fuel = Suc n" by (cases fuel) (auto simp: kv)
  have rt: "round_trips v" using Cons.prems(1) by (simp add: kv)
  have nv: "fuel_needed v \<le> n" using Cons.prems(4) by (simp add: kv fuel)
  let ?key = "concat (map escape_char k)"
  have item: "dumps_item (k, v) = CHR 0x22 # ?key @ CHR 0x22 # '': '' @ json_dumps v"
    by (simp add: dumps_item_def encode_basestring_ascii_def)
  have sk: "skip_ws (CHR '' '' # json_dumps v @ Y) = json_dumps v @ Y" for Y
    using skip_ws_value_start [OF value_start_dumps, of v Y]
    by (simp add: skip_ws_def is_ws_def)
  show ?case
  proof (cases d)
    case Nil
    have "scan_once n (json_dumps v @ ''}'' @ rest) = Inr (v, ''}'' @ rest)"
      using rt nv by (simp add: round_trips_def value_end_def)
    then have "JSONObject fuel acc ((?key @ CHR 0x22 # '': '' @ json_dumps v) @ ''}'' @ rest)
        = Inr (PDict (OrderedDict (acc @ [(k, v)])), rest)"
      using sk [of "''}'' @ rest"]
      by (simp add: fuel scanstring_escaped skip_ws_def is_ws_def)
    then show ?thesis
      by (simp only: kv Nil list.map join.simps item) blast
  next
    case (Cons kv' d')
    have "\<exists>t. join '', '' (map dumps_item d) = CHR 0x22 # t
           \<and> JSONObject n (acc @ [(k, v)]) (t @ ''}'' @ rest)
               = Inr (PDict (OrderedDict ((acc @ [(k, v)]) @ d)), rest)"
      using Cons.prems Cons by (intro Cons.IH) (auto simp: fuel kv)
    then obtain t where t: "join '', '' (map dumps_item d) = CHR 0x22 # t"
      "JSONObject n (acc @ [(k, v)]) (t @ ''}'' @ rest)
         = Inr (PDict (OrderedDict (acc @ (k, v) # d)), rest)"
      by auto
    let ?Y = "'', '' @ CHR 0x22 # t @ ''}'' @ rest"
    have "scan_once n (json_dumps v @ ?Y) = Inr (v, ?Y)"
      using rt nv by (simp add: round_trips_def value_end_def)
    then have "JSONObject fuel acc ((?key @ CHR 0x22 # '': '' @ json_dumps v @ '', '' @ CHR 0x22 # t) @ ''}'' @ rest)
        = Inr (PDict (OrderedDict (acc @ (k, v) # d)), rest)"
      using sk [of ?Y] t(2)
      by (simp add: fuel scanstring_escaped skip_ws_def is_ws_def)
    moreover have "join '', '' (map dumps_item (kv # d))
        = CHR 0x22 # ?key @ CHR 0x22 # '': '' @ json_dumps v @ '', '' @ CHR 0x22 # t"
      using t(1) by (simp add: kv Cons item)
    ultimately show ?thesis
      by (simp only: kv) blast
  qed
qed

lemma round_trips_PList:
  assumes "\<forall>x \<in> set xs. round_trips x"
  shows "round_trips (PList xs)"
  unfolding round_trips_def
proof (intro allI impI)
  fix fuel rest
  assume ve: "value_end rest" and f: "fuel_needed (PList xs) \<le> fuel"
  from f obtain n where fuel: "fuel = Suc n" by (cases fuel) auto
  show "scan_once fuel (json_dumps (PList xs) @ rest) = Inr (PList xs, rest)"
  proof (cases xs)
    case Nil
    then show ?thesis by (simp add: fuel skip_ws_def is_ws_def)
  next
    case (Cons y ys)
    define body where "body = join '', '' (map json_dumps xs) @ '']'' @ rest"
    have arr: "JSONArray n [] body = Inr (PList ([] @ xs), rest)"
      unfolding body_def using assms ve f by (intro JSONArray_items) (auto simp: fuel Cons)
    have "value_start body"
      unfolding body_def
      using value_start_dumps [of y] by (simp add: Cons value_start_def) (cases ys; auto)
    then obtain c r where cr: "body = c # r" "\<not> is_ws c" "c \<noteq> CHR '']''"
      by (auto simp: value_start_def)
    have sk: "skip_ws (c # r) = c # r" using cr(2) by (simp add: skip_ws_def)
    have "scan_once (Suc n) (CHR ''['' # body) = Inr (PList xs, rest)"
      using arr cr(3) by (simp add: sk cr(1))
    moreover have "json_dumps (PList xs) @ rest = CHR ''['' # body"
      by (simp add: body_def)
    ultimately show ?thesis
      by (simp only: fuel)
  qed
qed

lemma round_trips_PDict:
  assumes "\<forall>kv \<in> set d. round_trips (snd kv)" and "distinct (map fst d)"
  shows "round_trips (PDict d)"
  unfolding round_trips_def
proof (intro allI impI)
  fix fuel rest
  assume ve: "value_end rest" and f: "fuel_needed (PDict d) \<le> fuel"
  from f obtain n where fuel: "fuel = Suc n" by (cases fuel) auto
  show "scan_once fuel (json_dumps (PDict d) @ rest) = Inr (PDict d, rest)"
  proof (cases d)
    case Nil
    then show ?thesis by (simp add: fuel skip_ws_def is_ws_def OrderedDict_def)
  next
    case (Cons kv d')
    have "\<exists>t. join '', '' (map dumps_item d) = CHR 0x22 # t
           \<and> JSONObject n [] (t @ ''}'' @ rest) = Inr (PDict (OrderedDict ([] @ d)), rest)"
      using assms(1) ve f by (intro JSONObject_items) (auto simp: fuel Cons)
    then obtain t where t: "join '', '' (map dumps_item d) = CHR 0x22 # t"
      "JSONObject n [] (t @ ''}'' @ rest) = Inr (PDict d, rest)"
      by (auto simp: OrderedDict_distinct [OF assms(2)])
    have "scan_once (Suc n) (CHR ''{'' # CHR 0x22 # t @ ''}'' @ rest) = Inr (PDict d, rest)"
      using t(2) by (simp add: skip_ws_def is_ws_def)
    then show ?thesis
      by (simp only: json_dumps_PDict t(1) fuel) simp
  qed
qed

lemma round_trips_wf: "wf_pyval v \<Longrightarrow> round_trips v"
proof (induction v)
  case PNone
  show ?case unfolding round_trips_def
  proof (intro allI impI)
    fix fuel :: nat and rest
    assume "fuel_needed PNone \<le> fuel"
    then obtain n where "fuel = Suc n" by (cases fuel) auto
    then show "scan_once fuel (json_dumps PNone @ rest) = Inr (PNone, rest)" by simp
  qed
next
  case (PBool b)
  show ?case unfolding round_trips_def
  proof (intro allI impI)
    fix fuel :: nat and rest
    assume "fuel_needed (PBool b) \<le> fuel"
    then obtain n where "fuel = Suc n" by (cases fuel) auto
    then show "scan_once fuel (json_dumps (PBool b) @ rest) = Inr (PBool b, rest)" by simp
  qed
next
  case (PInt i)
  show ?case unfolding round_trips_def
  proof (intro allI impI)
    fix fuel :: nat and rest
    assume ve: "value_end rest" and "fuel_needed (PInt i) \<le> fuel"
    then obtain n where "fuel = Suc n" by (cases fuel) auto
    then show "scan_once fuel (json_dumps (PInt i) @ rest) = Inr (PInt i, rest)"
      using scan_once_PInt [OF ve] by simp
  qed
next
  case (PStr s)
  show ?case unfolding round_trips_def
  proof (intro allI impI)
    fix fuel :: nat and rest
    assume "fuel_needed (PStr s) \<le> fuel"
    then obtain n where "fuel = Suc n" by (cases fuel) auto
    then show "scan_once fuel (json_dumps (PStr s) @ rest) = Inr (PStr s, rest)"
      using scan_once_PStr by simp
  qed
next
  case (PList xs)
  then have "\<forall>x \<in> set xs. round_trips x" by (simp add: list_all_iff)
  then show ?case by (rule round_trips_PList)
next
  case (PDict d)
  then have "\<forall>kv \<in> set d. round_trips (snd kv)"
    by (fastforce simp: list_all_iff snds.simps)
  moreover from PDict.prems have "distinct (map fst d)" by simp
  ultimately show ?case by (rule round_trips_PDict)
qed

lemma sum_le_join_length:
  assumes "\<forall>x \<in> set xs. h x \<le> length (g x)"
  shows "sum_list (map (\<lambda>x. Suc (h x)) xs) \<le> Suc (length (join '', '' (map g xs)))"
  using assms
proof (induction xs)
  case Nil
  then show ?case by simp
next
  case (Cons x xs)
  then show ?case by (cases xs) auto
qed

lemma fuel_needed_le_length: "fuel_needed v \<le> length (json_dumps v)"
proof (induction v)
  case (PList xs)
  then have "\<forall>x \<in> set xs. fuel_needed x \<le> length (json_dumps x)" by simp
  from sum_le_join_length [of xs fuel_needed json_dumps, OF this]
  show ?case by simp
next
  case (PDict d)
  have "\<forall>kv \<in> set d. fuel_needed (snd kv) \<le> length (dumps_item kv)"
  proof
    fix kv assume "kv \<in> set d"
    then have "fuel_needed (snd kv) \<le> length (json_dumps (snd kv))"
      using PDict by (cases kv) (auto simp: snds.simps)
    then show "fuel_needed (snd kv) \<le> length (dumps_item kv)"
      by (simp add: dumps_item_def)
  qed
  from sum_le_join_length [of d "\<lambda>kv. fuel_needed (snd kv)" dumps_item, OF this]
  have "sum_list (map (\<lambda>kv. Suc (fuel_needed (snd kv))) d) \<le> Suc (length (join '', '' (map dumps_item d)))" .
  moreover have "map (\<lambda>(k, v). Suc (fuel_needed v)) d = map (\<lambda>kv. Suc (fuel_needed (snd kv))) d"
    by (induction d) auto
  ultimately have "sum_list (map (\<lambda>(k, v). Suc (fuel_needed v)) d)
      \<le> Suc (length (join '', '' (map dumps_item d)))"
    by (simp only:)
  then show ?case
    by (simp only: json_dumps_PDict fuel_needed.simps) simp
qed (simp_all add: str_int_def str_nat_nonempty encode_basestring_ascii_def Suc_le_eq)

lemma json_loads_dumps:
  assumes "wf_pyval v"
  shows "json_loads (json_dumps v) = Inr v"
proof -
  have rt: "round_trips v" using assms by (rule round_trips_wf)
  have ve: "value_end []" by (simp add: value_end_def)
  have "fuel_needed v \<le> Suc (length (json_dumps v))"
    using fuel_needed_le_length [of v] by simp
  with rt ve have "scan_once (Suc (length (json_dumps v))) (json_dumps v @ []) = Inr (v, [])"
    unfolding round_trips_def by blast
  moreover have "skip_ws (json_dumps v) = json_dumps v"
    using skip_ws_value_start [OF value_start_dumps, of v "[]"] by simp
  ultimately show ?thesis
    by (simp add: json_loads_def skip_ws_def)
qed

section \<open>The callbacks on a selection state\<close>

lemma update_click_obj_typed:
  "update_click_obj (click_obj n c) new =
     Inr (if new > n then click_obj new True else click_obj n False)"
  by (simp add: update_click_obj_def click_obj_def getitem_def setitem_def int_gt_def py_bind_def)

lemma click_loop_typed:
  "click_loop (map (\<lambda>(street, n, c). (street, click_obj n c)) sel) rows =
     Inr (map (\<lambda>(street, n, c). (street, click_obj n c)) (reduce_selection sel rows))"
  by (induction sel rows rule: reduce_selection.induct)
     (simp_all add: update_click_obj_typed py_bind_def)

lemma keys_state_items:
  "map fst (map (\<lambda>(street, n, c). (street, click_obj n c)) sel) = map fst sel"
  by (induction sel) auto

lemma wf_state_dict:
  assumes d: "distinct (map fst sel)"
  shows "wf_pyval (state_dict sel)"
proof -
  have k: "distinct (map fst (map (\<lambda>(street, n, c). (street, click_obj n c)) sel))"
    using d by (simp only: keys_state_items)
  have l: "list_all (\<lambda>(k, v). wf_pyval v) (map (\<lambda>(street, n, c). (street, click_obj n c)) sel)"
    by (induction sel) (auto simp: click_obj_def)
  show ?thesis
    unfolding state_dict_def wf_pyval.simps using k l by blast
qed

lemma deserialise_serialise_state:
  "distinct (map fst sel) \<Longrightarrow>
     deserialise_clicks (serialise_clicks (state_dict sel)) = Inr (state_dict sel)"
  by (simp add: deserialise_clicks_def serialise_clicks_def json_loads_dumps wf_state_dict)

lemma keys_reduce_selection: "map fst (reduce_selection sel rows) = map fst sel"
  by (induction sel rows rule: reduce_selection.induct) simp_all

lemma length_reduce_selection: "length (reduce_selection sel rows) = length sel"
  by (induction sel rows rule: reduce_selection.induct) simp_all

lemma button_click_typed:
  assumes "distinct (map fst sel)"
  shows "button_click rows (serialise_clicks (state_dict sel)) =
           Inr (serialise_clicks (state_dict (reduce_selection sel rows)))"
  using deserialise_serialise_state [OF assms]
  by (simp add: button_click_def py_bind_def state_dict_def click_loop_typed)

lemma nth_reduce_selection:
  assumes "i < length sel" and "i < length rows"
  shows "reduce_selection sel rows ! i =
           (if rows ! i > fst (snd (sel ! i))
            then (fst (sel ! i), rows ! i, True)
            else (fst (sel ! i), fst (snd (sel ! i)), False))"
  using assms
proof (induction sel rows arbitrary: i rule: reduce_selection.induct)
  case (3 street n c sel new rows)
  then show ?case by (cases i) auto
qed simp_all

lemma nth_reduce_selection_beyond:
  assumes "i < length sel" and "length rows \<le> i"
  shows "reduce_selection sel rows ! i = sel ! i"
  using assms
proof (induction sel rows arbitrary: i rule: reduce_selection.induct)
  case (3 street n c sel new rows)
  then show ?case by (cases i) auto
qed simp_all

lemma clicked_streets_typed:
  "clicked_streets (map (\<lambda>(street, n, c). (street, click_obj n c)) sel) =
     Inr (map fst (filter (\<lambda>(street, n, c). c) sel))"
  by (induction sel) (auto simp: py_bind_def getitem_def click_obj_def)

lemma update_selected_street_typed:
  assumes "distinct (map fst sel)"
  shows "update_selected_street (serialise_clicks (state_dict sel)) =
           Inr (if map fst (filter (\<lambda>(street, n, c). c) sel) \<noteq> []
                then map fst (filter (\<lambda>(street, n, c). c) sel) else [STREETS ! 0])"
  using deserialise_serialise_state [OF assms]
  by (simp add: update_selected_street_def py_bind_def state_dict_def clicked_streets_typed)

lemma distinct_STREETS: "distinct STREETS"
  by (simp add: STREETS_def)

lemma INITIAL_STATE_typed: "INITIAL_STATE = state_dict initial_selection"
proof -
  have "distinct (map fst (map (\<lambda>street.
       (street, click_obj (if street = ''Dundas'' then 1 else 0) (street = ''Dundas''))) STREETS))"
    using distinct_STREETS by (simp add: comp_def)
  then show ?thesis
    by (simp add: INITIAL_STATE_def OrderedDict_distinct state_dict_def initial_selection_def comp_def)
qed

lemma keys_initial_selection: "map fst initial_selection = STREETS"
  by (simp add: initial_selection_def comp_def)

lemma button_clicks_typed:
  assumes "distinct (map fst sel)"
  shows "button_clicks reports (serialise_clicks (state_dict sel)) =
           Inr (serialise_clicks (state_dict (foldl reduce_selection sel reports)))"
  using assms
proof (induction reports arbitrary: sel)
  case Nil
  then show ?case by simp
next
  case (Cons rows reports)
  have "distinct (map fst (reduce_selection sel rows))"
    using Cons.prems by (simp add: keys_reduce_selection)
  from Cons.IH [OF this] show ?case
    by (simp add: button_click_typed [OF Cons.prems] py_bind_def)
qed

lemma keys_foldl_reduce: "map fst (foldl reduce_selection sel reports) = map fst sel"
  by (induction reports arbitrary: sel) (simp_all add: keys_reduce_selection)

lemma filter_selected_none:
  "find (\<lambda>(street, n, c). c) sel = None \<Longrightarrow> map fst (filter (\<lambda>(street, n, c). c) sel) = []"
  by (induction sel) (auto split: if_splits)

lemma filter_selected_some:
  "find (\<lambda>(street, n, c). c) sel = Some (name, n, c) \<Longrightarrow>
     \<exists>others. map fst (filter (\<lambda>(street, n, c). c) sel) = name # others"
  by (induction sel) (auto split: if_splits)

lemma dict_keys_state_dict: "dict_keys (state_dict sel) = map fst sel"
  unfolding state_dict_def dict_keys_def
  by (simp only: pyval.case keys_state_items)

text \<open>
  C1. For every selection state and every click report with one counter per entity,
  \<^verbatim>\<open>button_click\<close> stores the state in which each entity whose reported counter is
  strictly greater than its stored counter is selected with the reported counter
  stored, and each other entity is unselected with its stored counter unchanged: the
  text it returns is the serialised next state, and \<^verbatim>\<open>deserialise_clicks\<close> reads that
  state back from it.
\<close>

theorem button_click_selects:
  assumes "distinct (map fst sel)" and "length rows = length sel"
  shows "button_click rows (serialise_clicks (state_dict sel)) =
           Inr (serialise_clicks (state_dict (reduce_selection sel rows)))
       \<and> py_bind (button_click rows (serialise_clicks (state_dict sel))) deserialise_clicks =
           Inr (state_dict (reduce_selection sel rows))
       \<and> map fst (reduce_selection sel rows) = map fst sel
       \<and> (\<forall>i < length sel.
            (rows ! i > fst (snd (sel ! i)) \<longrightarrow>
               snd (reduce_selection sel rows ! i) = (rows ! i, True))
          \<and> (\<not> rows ! i > fst (snd (sel ! i)) \<longrightarrow>
               snd (reduce_selection sel rows ! i) = (fst (snd (sel ! i)), False)))"
proof (intro conjI allI impI)
  show bc: "button_click rows (serialise_clicks (state_dict sel)) =
          Inr (serialise_clicks (state_dict (reduce_selection sel rows)))"
    using assms(1) by (rule button_click_typed)
  have "distinct (map fst (reduce_selection sel rows))"
    using assms(1) by (simp only: keys_reduce_selection)
  then have "deserialise_clicks (serialise_clicks (state_dict (reduce_selection sel rows))) =
               Inr (state_dict (reduce_selection sel rows))"
    by (rule deserialise_serialise_state)
  then show "py_bind (button_click rows (serialise_clicks (state_dict sel))) deserialise_clicks =
          Inr (state_dict (reduce_selection sel rows))"
    by (simp add: bc py_bind_def)
  show "map fst (reduce_selection sel rows) = map fst sel"
    by (rule keys_reduce_selection)
next
  fix i assume "i < length sel" and "rows ! i > fst (snd (sel ! i))"
  then show "snd (reduce_selection sel rows ! i) = (rows ! i, True)"
    using assms(2) by (simp add: nth_reduce_selection)
next
  fix i assume "i < length sel" and "\<not> rows ! i > fst (snd (sel ! i))"
  then show "snd (reduce_selection sel rows ! i) = (fst (snd (sel ! i)), False)"
    using assms(2) by (simp add: nth_reduce_selection)
qed

theorem button_click_selects_witness:
  "distinct (map fst initial_selection)
   \<and> length [1, 1, 0, 0, 0, 0 :: int] = length initial_selection
   \<and> button_click [1, 1, 0, 0, 0, 0] (serialise_clicks (state_dict initial_selection)) =
       Inr (serialise_clicks (state_dict
         [(''Dundas'', 1, False), (''Queen'', 1, True), (''Adelaide'', 0, False),
          (''Richmond'', 0, False), (''Wellington'', 0, False), (''Front'', 0, False)]))
   \<and> py_bind (button_click [1, 1, 0, 0, 0, 0] (serialise_clicks (state_dict initial_selection)))
         deserialise_clicks =
       Inr (PDict
         [(''Dundas'', PDict [(''n_clicks'', PInt 1), (''clicked'', PBool False)]),
          (''Queen'', PDict [(''n_clicks'', PInt 1), (''clicked'', PBool True)]),
          (''Adelaide'', PDict [(''n_clicks'', PInt 0), (''clicked'', PBool False)]),
          (''Richmond'', PDict [(''n_clicks'', PInt 0), (''clicked'', PBool False)]),
          (''Wellington'', PDict [(''n_clicks'', PInt 0), (''clicked'', PBool False)]),
          (''Front'', PDict [(''n_clicks'', PInt 0), (''clicked'', PBool False)])])"
proof -
  have d: "distinct (map fst initial_selection)"
    by (simp add: keys_initial_selection distinct_STREETS)
  have l: "length [1, 1, 0, 0, 0, 0 :: int] = length initial_selection"
    by (simp add: initial_selection_def STREETS_def)
  have r: "reduce_selection initial_selection [1, 1, 0, 0, 0, 0] =
      [(''Dundas'', 1, False), (''Queen'', 1, True), (''Adelaide'', 0, False),
       (''Richmond'', 0, False), (''Wellington'', 0, False), (''Front'', 0, False)]"
    by (simp add: initial_selection_def STREETS_def)
  note t = button_click_selects [OF d l]
  from t
  have a: "button_click [1, 1, 0, 0, 0, 0] (serialise_clicks (state_dict initial_selection)) =
      Inr (serialise_clicks (state_dict (reduce_selection initial_selection [1, 1, 0, 0, 0, 0])))"
    by (rule conjunct1)
  from t
  have b: "py_bind (button_click [1, 1, 0, 0, 0, 0]
                     (serialise_clicks (state_dict initial_selection))) deserialise_clicks =
      Inr (state_dict (reduce_selection initial_selection [1, 1, 0, 0, 0, 0]))"
    by (elim conjE)
  have c: "state_dict
      [(''Dundas'', 1, False), (''Queen'', 1, True), (''Adelaide'', 0, False),
       (''Richmond'', 0, False), (''Wellington'', 0, False), (''Front'', 0, False)] =
      PDict
         [(''Dundas'', PDict [(''n_clicks'', PInt 1), (''clicked'', PBool False)]),
          (''Queen'', PDict [(''n_clicks'', PInt 1), (''clicked'', PBool True)]),
          (''Adelaide'', PDict [(''n_clicks'', PInt 0), (''clicked'', PBool False)]),
          (''Richmond'', PDict [(''n_clicks'', PInt 0), (''clicked'', PBool False)]),
          (''Wellington'', PDict [(''n_clicks'', PInt 0), (''clicked'', PBool False)]),
          (''Front'', PDict [(''n_clicks'', PInt 0), (''clicked'', PBool False)])]"
    by (simp add: state_dict_def click_obj_def)
  from d l a b show ?thesis by (simp only: r c simp_thms)
qed

text \<open>
  C9. For every selection state and every click report, of any length, the stored
  counter of every entity after \<^verbatim>\<open>button_click\<close> is at least its stored counter before.
\<close>

theorem button_click_counters_monotone:
  assumes "distinct (map fst sel)"
  shows "button_click rows (serialise_clicks (state_dict sel)) =
           Inr (serialise_clicks (state_dict (reduce_selection sel rows)))
       \<and> length (reduce_selection sel rows) = length sel
       \<and> (\<forall>i < length sel.
            fst (reduce_selection sel rows ! i) = fst (sel ! i)
          \<and> fst (snd (sel ! i)) \<le> fst (snd (reduce_selection sel rows ! i)))"
proof (intro conjI allI impI)
  show "button_click rows (serialise_clicks (state_dict sel)) =
          Inr (serialise_clicks (state_dict (reduce_selection sel rows)))"
    using assms by (rule button_click_typed)
  show "length (reduce_selection sel rows) = length sel"
    by (rule length_reduce_selection)
next
  fix i assume i: "i < length sel"
  show "fst (reduce_selection sel rows ! i) = fst (sel ! i)"
    using i by (cases "i < length rows")
      (simp_all add: nth_reduce_selection nth_reduce_selection_beyond)
  show "fst (snd (sel ! i)) \<le> fst (snd (reduce_selection sel rows ! i))"
    using i by (cases "i < length rows")
      (simp_all add: nth_reduce_selection nth_reduce_selection_beyond)
qed

theorem button_click_counters_monotone_witness:
  "distinct (map fst initial_selection)
   \<and> button_click [0, 3, 0, 0, 0, 0] (serialise_clicks (state_dict initial_selection)) =
       Inr (serialise_clicks (state_dict
         [(''Dundas'', 1, False), (''Queen'', 3, True), (''Adelaide'', 0, False),
          (''Richmond'', 0, False), (''Wellington'', 0, False), (''Front'', 0, False)]))"
proof -
  have d: "distinct (map fst initial_selection)"
    by (simp add: keys_initial_selection distinct_STREETS)
  have r: "reduce_selection initial_selection [0, 3, 0, 0, 0, 0] =
      [(''Dundas'', 1, False), (''Queen'', 3, True), (''Adelaide'', 0, False),
       (''Richmond'', 0, False), (''Wellington'', 0, False), (''Front'', 0, False)]"
    by (simp add: initial_selection_def STREETS_def)
  from button_click_counters_monotone [OF d]
  have "button_click [0, 3, 0, 0, 0, 0] (serialise_clicks (state_dict initial_selection)) =
      Inr (serialise_clicks (state_dict (reduce_selection initial_selection [0, 3, 0, 0, 0, 0])))"
    by (rule conjunct1)
  with d show ?thesis by (simp only: r)
qed

text \<open>
  C2 (amended). For every selection state, \<^verbatim>\<open>update_selected_street\<close> returns the list
  of all entities flagged selected, in the order of the state, and \<^verbatim>\<open>['Dundas']\<close> when no
  entity is flagged. The list is never empty; its element 0, which is what every consumer
  reads as the selected street, is the first flagged entity, or 'Dundas'; and it is that
  single value whenever at most one entity is flagged.
\<close>

theorem update_selected_street_flagged:
  assumes "distinct (map fst sel)"
  shows "\<exists>street.
      update_selected_street (serialise_clicks (state_dict sel)) = Inr street
    \<and> street = (if flagged_streets sel \<noteq> [] then flagged_streets sel else [''Dundas''])
    \<and> street \<noteq> []
    \<and> street ! 0 = first_selected_or_default sel
    \<and> (length (flagged_streets sel) \<le> 1 \<longrightarrow> street = [first_selected_or_default sel])"
proof -
  define street where
    "street = (if flagged_streets sel \<noteq> [] then flagged_streets sel else [''Dundas''])"
  have upd: "update_selected_street (serialise_clicks (state_dict sel)) = Inr street"
    by (simp add: update_selected_street_typed [OF assms] street_def flagged_streets_def
        STREETS_def)
  have ne: "street \<noteq> []" by (simp add: street_def)
  have first: "\<exists>others. street = first_selected_or_default sel # others"
  proof (cases "find (\<lambda>(street, n, c). c) sel")
    case None
    then have "flagged_streets sel = []"
      by (simp add: flagged_streets_def filter_selected_none)
    then show ?thesis using None by (simp add: street_def first_selected_or_default_def)
  next
    case (Some e)
    obtain name n c where e: "e = (name, n, c)" by (cases e)
    have "\<exists>others. map fst (filter (\<lambda>(street, n, c). c) sel) = name # others"
      using Some unfolding e by (rule filter_selected_some)
    then obtain others where "flagged_streets sel = name # others"
      unfolding flagged_streets_def ..
    then show ?thesis using Some by (simp add: street_def first_selected_or_default_def e)
  qed
  then obtain others where o: "street = first_selected_or_default sel # others" ..
  have hd0: "street ! 0 = first_selected_or_default sel" by (simp add: o)
  have single: "length (flagged_streets sel) \<le> 1 \<longrightarrow> street = [first_selected_or_default sel]"
  proof
    assume "length (flagged_streets sel) \<le> 1"
    then have "length street \<le> 1" by (simp add: street_def)
    then show "street = [first_selected_or_default sel]" by (simp add: o)
  qed
  from upd ne hd0 single show ?thesis unfolding street_def by blast
qed

theorem update_selected_street_flagged_witness:
  "distinct (map fst [(''Dundas'', 0 :: int, False), (''Queen'', 0, False)])
   \<and> update_selected_street (serialise_clicks (state_dict
         [(''Dundas'', 0, False), (''Queen'', 0, False)])) = Inr [''Dundas'']
   \<and> distinct (map fst [(''Dundas'', 1 :: int, False), (''Queen'', 2, True), (''Front'', 1, False)])
   \<and> length (flagged_streets [(''Dundas'', 1, False), (''Queen'', 2, True), (''Front'', 1, False)]) \<le> 1
   \<and> update_selected_street (serialise_clicks (state_dict
         [(''Dundas'', 1, False), (''Queen'', 2, True), (''Front'', 1, False)])) = Inr [''Queen'']"
proof -
  have d1: "distinct (map fst [(''Dundas'', 0 :: int, False), (''Queen'', 0, False)])" by simp
  have d2: "distinct (map fst [(''Dundas'', 1 :: int, False), (''Queen'', 2, True), (''Front'', 1, False)])"
    by simp
  have f1: "flagged_streets [(''Dundas'', 0, False), (''Queen'', 0, False)] = []"
    by (simp add: flagged_streets_def)
  have f2: "flagged_streets [(''Dundas'', 1, False), (''Queen'', 2, True), (''Front'', 1, False)] = [''Queen'']"
    by (simp add: flagged_streets_def)
  from update_selected_street_flagged [OF d1]
  have r1: "update_selected_street (serialise_clicks (state_dict
         [(''Dundas'', 0, False), (''Queen'', 0, False)])) = Inr [''Dundas'']"
    by (auto simp: f1)
  from update_selected_street_flagged [OF d2]
  have r2: "update_selected_street (serialise_clicks (state_dict
         [(''Dundas'', 1, False), (''Queen'', 2, True), (''Front'', 1, False)])) = Inr [''Queen'']"
    by (auto simp: f2)
  from d1 d2 r1 r2 show ?thesis by (simp add: f2)
qed

text \<open>
  C2 as stated fails: the derived selection need not be a single value. With two
  entities flagged, both are returned.
\<close>

theorem update_selected_street_two_flagged:
  "update_selected_street (serialise_clicks (state_dict
      [(''Dundas'', 2, True), (''Queen'', 1, True), (''Adelaide'', 0, False),
       (''Richmond'', 0, False), (''Wellington'', 0, False), (''Front'', 0, False)]))
     = Inr [''Dundas'', ''Queen'']"
proof -
  have "distinct (map fst [(''Dundas'', 2 :: int, True), (''Queen'', 1, True), (''Adelaide'', 0, False),
       (''Richmond'', 0, False), (''Wellington'', 0, False), (''Front'', 0, False)])"
    by simp
  from update_selected_street_typed [OF this] show ?thesis by simp
qed

lemma count_in_distinct:
  "distinct xs \<Longrightarrow> x \<in> set xs \<Longrightarrow> length (filter (\<lambda>y. y = x) xs) = 1"
  by (induction xs) (auto simp: filter_empty_conv)

lemma row_class_selected_iff:
  "selected \<noteq> [] \<Longrightarrow>
     (create_row_click_function name selected = ''selected'') = (name = selected ! 0)"
  by (simp add: create_row_click_function_def generate_row_class_def)

text \<open>
  C3 (amended). After any sequence of click reports applied to the initial state,
  \<^verbatim>\<open>update_selected_street\<close> returns a non-empty list of streets, the street read from
  it (element 0) is one of the six streets, and exactly one row is given the class
  "selected": never none and never more than one.
\<close>

theorem single_selection:
  "\<exists>state_data street.
      button_clicks reports (serialise_clicks INITIAL_STATE) = Inr state_data
    \<and> update_selected_street state_data = Inr street
    \<and> street \<noteq> []
    \<and> street ! 0 \<in> set STREETS
    \<and> length (filter (\<lambda>name. create_row_click_function name street = ''selected'') STREETS) = 1"
proof -
  define sel where "sel = foldl reduce_selection initial_selection reports"
  define clicked where "clicked = map fst (filter (\<lambda>(street, n, c). c) sel)"
  define street where "street = (if clicked \<noteq> [] then clicked else [STREETS ! 0])"
  have keys: "map fst sel = STREETS"
    by (simp add: sel_def keys_foldl_reduce keys_initial_selection)
  have d0: "distinct (map fst initial_selection)"
    by (simp add: keys_initial_selection distinct_STREETS)
  have d: "distinct (map fst sel)"
    by (simp add: keys distinct_STREETS)
  have run: "button_clicks reports (serialise_clicks INITIAL_STATE) =
      Inr (serialise_clicks (state_dict sel))"
    unfolding INITIAL_STATE_typed sel_def using d0 by (rule button_clicks_typed)
  have upd: "update_selected_street (serialise_clicks (state_dict sel)) = Inr street"
    by (simp add: update_selected_street_typed [OF d] street_def clicked_def)
  have ne: "street \<noteq> []" by (simp add: street_def)
  have "set clicked \<subseteq> set STREETS"
    unfolding clicked_def keys [symmetric] by auto
  moreover have "STREETS ! 0 \<in> set STREETS" by (simp add: STREETS_def)
  ultimately have mem: "street ! 0 \<in> set STREETS"
    by (cases clicked) (auto simp: street_def)
  have "filter (\<lambda>name. create_row_click_function name street = ''selected'') STREETS =
      filter (\<lambda>name. name = street ! 0) STREETS"
    by (simp add: row_class_selected_iff [OF ne])
  then have one: "length (filter (\<lambda>name. create_row_click_function name street = ''selected'') STREETS) = 1"
    using count_in_distinct [OF distinct_STREETS mem] by simp
  from run upd ne mem one show ?thesis by blast
qed

text \<open>
  C3 as stated fails: one report that raises the counters of two entities leaves both
  flagged, and the derivation returns both.
\<close>

theorem two_streets_selected:
  "button_clicks [[2, 1, 0, 0, 0, 0]] (serialise_clicks INITIAL_STATE) =
     Inr (serialise_clicks (state_dict (reduce_selection initial_selection [2, 1, 0, 0, 0, 0])))
   \<and> update_selected_street
       (serialise_clicks (state_dict (reduce_selection initial_selection [2, 1, 0, 0, 0, 0])))
     = Inr [''Dundas'', ''Queen'']"
proof -
  have d0: "distinct (map fst initial_selection)"
    by (simp add: keys_initial_selection distinct_STREETS)
  have r: "reduce_selection initial_selection [2, 1, 0, 0, 0, 0] =
      [(''Dundas'', 2, True), (''Queen'', 1, True), (''Adelaide'', 0, False),
       (''Richmond'', 0, False), (''Wellington'', 0, False), (''Front'', 0, False)]"
    by (simp add: initial_selection_def STREETS_def)
  have d: "distinct (map fst (reduce_selection initial_selection [2, 1, 0, 0, 0, 0]))"
    using d0 by (simp only: keys_reduce_selection)
  have run: "button_clicks [[2, 1, 0, 0, 0, 0]] (serialise_clicks INITIAL_STATE) =
      Inr (serialise_clicks (state_dict (reduce_selection initial_selection [2, 1, 0, 0, 0, 0])))"
    using button_clicks_typed [OF d0, of "[[2, 1, 0, 0, 0, 0]]"]
    by (simp add: INITIAL_STATE_typed)
  have "update_selected_street
       (serialise_clicks (state_dict (reduce_selection initial_selection [2, 1, 0, 0, 0, 0])))
     = Inr [''Dundas'', ''Queen'']"
    using update_selected_street_typed [OF d] by (simp add: r)
  with run show ?thesis by (rule conjI)
qed

text \<open>
  C8. The row callback of an entity returns "selected" if and only if the entity is the
  selected street (element 0 of the list it is given) and "notselected" otherwise; one
  such callback is registered for each of the six streets.
\<close>

theorem row_class_selected:
  "create_row_click_function streetname (selected # others) =
     (if streetname = selected then ''selected'' else ''notselected'')
   \<and> (create_row_click_function streetname (selected # others) = ''selected'') = (streetname = selected)
   \<and> (create_row_click_function streetname (selected # others) = ''notselected'') = (streetname \<noteq> selected)
   \<and> create_row_click_function streetname [] = ''notselected''
   \<and> map fst row_click_functions = STREETS
   \<and> map snd row_click_functions = map create_row_click_function STREETS"
proof -
  have "dict_keys INITIAL_STATE = STREETS"
    by (simp only: INITIAL_STATE_typed dict_keys_state_dict keys_initial_selection)
  then show ?thesis
    by (simp add: create_row_click_function_def generate_row_class_def row_click_functions_def comp_def)
qed

text \<open>
  C10. \<^verbatim>\<open>deserialise_clicks\<close> returns, from the text \<^verbatim>\<open>serialise_clicks\<close> wrote for a
  selection state, the state itself, with its entities in the same order.
\<close>

theorem clicks_round_trip:
  assumes "distinct (map fst sel)"
  shows "deserialise_clicks (serialise_clicks (state_dict sel)) = Inr (state_dict sel)
       \<and> dict_keys (state_dict sel) = map fst sel"
  using deserialise_serialise_state [OF assms] dict_keys_state_dict [of sel]
  by (rule conjI)

theorem clicks_round_trip_witness:
  "distinct (map fst initial_selection)
   \<and> deserialise_clicks (serialise_clicks INITIAL_STATE) = Inr INITIAL_STATE
   \<and> dict_keys INITIAL_STATE = STREETS"
proof -
  have d: "distinct (map fst initial_selection)"
    by (simp add: keys_initial_selection distinct_STREETS)
  from clicks_round_trip [OF d] d show ?thesis
    by (simp only: INITIAL_STATE_typed keys_initial_selection)
qed

section \<open>Cell styling\<close>

subsection \<open>Rounding to 53 bits\<close>

declare bit_length.simps [simp del]

lemma bit_length_upper: "n < 2 ^ bit_length n"
proof (induction n rule: bit_length.induct)
  case (1 n)
  show ?case
  proof (cases "n = 0")
    case True
    then show ?thesis by (simp add: bit_length.simps [of n])
  next
    case False
    with 1 have "n div 2 < 2 ^ bit_length (n div 2)" by simp
    then have "n < 2 * 2 ^ bit_length (n div 2)" by linarith
    then show ?thesis using False by (simp add: bit_length.simps [of n])
  qed
qed

lemma bit_length_lower: "0 < n \<Longrightarrow> 2 ^ (bit_length n - 1) \<le> n"
proof (induction n rule: bit_length.induct)
  case (1 n)
  show ?case
  proof (cases "n div 2 = 0")
    case True
    with 1 have "n = 1" by (simp add: div_eq_0_iff)
    then have "bit_length n = 1"
      by (simp add: bit_length.simps [of "Suc 0"] bit_length.simps [of 0])
    then show ?thesis using \<open>n = 1\<close> by simp
  next
    case False
    with 1 have ih: "2 ^ (bit_length (n div 2) - 1) \<le> n div 2" by simp
    have pos: "0 < bit_length (n div 2)"
      using False by (simp add: bit_length.simps [of "n div 2"])
    have "bit_length n = Suc (bit_length (n div 2))"
      using 1(2) by (simp add: bit_length.simps [of n])
    then have "2 ^ (bit_length n - 1) = 2 * 2 ^ (bit_length (n div 2) - 1)"
      using pos by (cases "bit_length (n div 2)") simp_all
    also have "\<dots> \<le> 2 * (n div 2)" using ih by simp
    also have "\<dots> \<le> n" by simp
    finally show ?thesis .
  qed
qed

lemma round_half_even_cases:
  "round_half_even N s = N div 2 ^ s \<or> round_half_even N s = N div 2 ^ s + 1"
  by (simp add: round_half_even_def Let_def)

lemma round_half_even_gt:
  assumes s: "0 < s" and K: "even K"
  shows "(K < round_half_even N s) = (K * 2 ^ s + 2 ^ (s - 1) < N)"
proof -
  define p :: nat where "p = 2 ^ (s - 1)"
  define q where "q = N div 2 ^ s"
  define r where "r = N mod 2 ^ s"
  have two_s: "(2::nat) ^ s = 2 * p"
    using s by (cases s) (simp_all add: p_def)
  have p: "0 < p" by (simp add: p_def)
  have p': "2 ^ (s - Suc 0) = p" by (simp add: p_def)
  have N: "N = q * (2 * p) + r"
    unfolding q_def r_def two_s [symmetric] by (rule div_mult_mod_eq [symmetric])
  have r: "r < 2 * p"
    unfolding r_def two_s [symmetric] by simp
  have rhe: "round_half_even N s =
      (if r < p then q else if r > p then q + 1 else if even q then q else q + 1)"
    by (simp add: round_half_even_def Let_def q_def r_def p_def)
  consider "q < K" | "q = K" | "K < q" by linarith
  then show ?thesis
  proof cases
    case 1
    then have "q + 1 \<le> K" by simp
    then have "(q + 1) * (2 * p) \<le> K * (2 * p)" by (rule mult_le_mono1)
    then have "N < K * (2 * p) + p" using N r by (simp add: algebra_simps)
    moreover have "round_half_even N s \<le> K" using 1 by (simp add: rhe)
    ultimately show ?thesis by (simp add: two_s p')
  next
    case 2
    then have "(K < round_half_even N s) = (p < r)"
      using K by (simp add: rhe)
    also have "\<dots> = (K * (2 * p) + p < N)" using N 2 by simp
    finally show ?thesis by (simp add: two_s p')
  next
    case 3
    then have "K + 1 \<le> q" by simp
    then have "(K + 1) * (2 * p) \<le> q * (2 * p)" by (rule mult_le_mono1)
    then have "K * (2 * p) + p < N" using N p by (simp add: algebra_simps)
    moreover have "K < round_half_even N s" using 3 by (simp add: rhe)
    ultimately show ?thesis by (simp add: two_s p')
  qed
qed

lemma powi_shift: "(2::real) powi (E + int s) = 2 ^ s * 2 powi E"
  by (simp add: power_int_add)

lemma powi_le_iff: "a \<le> b \<Longrightarrow> (2::real) powi a \<le> 2 powi b"
  by (rule power_int_increasing) simp_all

lemma small_exact:
  assumes N: "N < 2 ^ 53"
  shows "(1 < real N * 2 powi E) = (1 + 1 / 2 ^ 53 < real N * 2 powi E)"
proof
  assume "1 + 1 / 2 ^ 53 < real N * 2 powi E"
  then show "1 < real N * 2 powi E" by simp
next
  assume gt: "1 < real N * 2 powi E"
  show "1 + 1 / 2 ^ 53 < real N * 2 powi E"
  proof (cases "- 52 \<le> E")
    case True
    define k where "k = nat (E + 52)"
    have E: "E = - 52 + int k" using True by (simp add: k_def)
    have "(2::real) powi (- 52 + int k) = 2 powi (- 52) * 2 powi (int k)"
      by (rule power_int_add) simp
    moreover have "(2::real) powi (- 52) = 1 / 2 ^ 52"
      by (simp add: field_simps)
    ultimately have pw: "(2::real) powi E = 2 ^ k / 2 ^ 52"
      unfolding E by (simp only: power_int_of_nat) simp
    have "1 < real (N * 2 ^ k) / 2 ^ 52" using gt by (simp add: pw)
    then have "(2::real) ^ 52 < real (N * 2 ^ k)" by (simp add: field_simps)
    then have "(2::nat) ^ 52 < N * 2 ^ k"
      by (metis of_nat_less_iff of_nat_numeral of_nat_power)
    then have "(2::nat) ^ 52 + 1 \<le> N * 2 ^ k" by simp
    then have "real ((2::nat) ^ 52 + 1) \<le> real (N * 2 ^ k)" by (rule of_nat_mono)
    then have "(2::real) ^ 52 + 1 \<le> real (N * 2 ^ k)" by simp
    then have "1 + 1 / 2 ^ 52 \<le> real (N * 2 ^ k) / 2 ^ 52" by (simp add: field_simps)
    moreover have "(1::real) / 2 ^ 53 < 1 / 2 ^ 52" by simp
    ultimately have "1 + 1 / 2 ^ 53 < real (N * 2 ^ k) / 2 ^ 52" by linarith
    then show ?thesis by (simp add: pw)
  next
    case False
    then have "E \<le> - 53" by simp
    then have "(2::real) powi E \<le> 2 powi (- 53)" by (rule powi_le_iff)
    then have le: "(2::real) powi E \<le> 1 / 2 ^ 53" by (simp add: power_int_minus field_simps)
    have "real N < 2 ^ 53" using N by (metis of_nat_less_iff of_nat_numeral of_nat_power)
    then have "real N * 2 powi E < 2 ^ 53 * 2 powi E" by simp
    also have "\<dots> \<le> 2 ^ 53 * (1 / 2 ^ 53)" using le by (intro mult_left_mono) simp_all
    finally have "real N * 2 powi E < 1" by simp
    with gt show ?thesis by simp
  qed
qed

text \<open>
  Rounding moves a magnitude above 1 exactly when the magnitude is above \<open>1 + 2 ^ - 53\<close>,
  the midpoint of 1 and the next double.
\<close>

lemma round_magnitude_passes_one:
  assumes N: "0 < N"
  shows "passes_one (round_magnitude N E) = (1 + 1 / 2 ^ 53 < real N * 2 powi E)"
proof (cases "bit_length N \<le> 53")
  case True
  have "N < 2 ^ bit_length N" by (rule bit_length_upper)
  also have "(2::nat) ^ bit_length N \<le> 2 ^ 53"
    using True by (intro power_increasing) simp_all
  finally have "N < 2 ^ 53" .
  then show ?thesis
    using True by (simp add: round_magnitude_def passes_one_def small_exact)
next
  case False
  define s where "s = bit_length N - 53"
  define q where "q = round_half_even N s"
  define u :: real where "u = 2 powi (E + int s)"
  define x :: real where "x = real N * 2 powi E"
  define result where
    "result = (if q = 2 ^ 53 then (2 ^ 52, E + int s + 1) else (q, E + int s))"
  have s: "0 < s" and n: "bit_length N = 53 + s" "bit_length N - 1 = 52 + s"
    using False by (simp_all add: s_def)
  have lo: "2 ^ 52 * 2 ^ s \<le> N"
    using bit_length_lower [OF N] by (simp add: n power_add)
  have hi: "N < 2 ^ 53 * 2 ^ s"
    using bit_length_upper [of N] by (simp add: n power_add)
  have q0lo: "2 ^ 52 \<le> N div 2 ^ s"
    using lo by (simp add: less_eq_div_iff_mult_less_eq)
  have q0hi: "N div 2 ^ s < 2 ^ 53"
    using hi by (simp add: less_mult_imp_div_less)
  have qlo: "2 ^ 52 \<le> q" and qhi: "q \<le> 2 ^ 53"
    using round_half_even_cases [of N s] q0lo q0hi by (auto simp: q_def)
  have upos: "0 < u" by (simp add: u_def)
  have u: "u = 2 ^ s * 2 powi E" by (simp add: u_def powi_shift)
  have xlo: "2 ^ 52 * u \<le> x"
  proof -
    have "real ((2::nat) ^ 52 * 2 ^ s) \<le> real N" using lo by (rule of_nat_mono)
    then have "2 ^ 52 * 2 ^ s * 2 powi E \<le> real N * 2 powi E"
      by (intro mult_right_mono) simp_all
    then show ?thesis by (simp add: u x_def mult.assoc)
  qed
  have xhi: "x < 2 ^ 53 * u"
  proof -
    have "real N < real ((2::nat) ^ 53 * 2 ^ s)" using hi by (simp only: of_nat_less_iff)
    then have "real N * 2 powi E < 2 ^ 53 * 2 ^ s * 2 powi E"
      by (intro mult_strict_right_mono) simp_all
    then show ?thesis by (simp add: u x_def mult.assoc)
  qed
  have rm: "round_magnitude N E = (if 971 < snd result then None else Some result)"
    using False by (simp add: round_magnitude_def Let_def s_def q_def result_def)
  have val: "real (fst result) * 2 powi (snd result) = real q * u"
  proof (cases "q = 2 ^ 53")
    case True
    have "(2::real) powi (E + int s + 1) = 2 powi (E + int s) * 2 powi 1"
      by (rule power_int_add) simp
    then show ?thesis using True by (simp add: result_def u_def)
  next
    case False
    then show ?thesis by (simp add: result_def u_def)
  qed
  have sndr: "snd result \<le> E + int s + 1" "E + int s \<le> snd result"
    by (simp_all add: result_def)
  have po: "passes_one (round_magnitude N E) = (971 < snd result \<or> 1 < real q * u)"
    by (simp add: rm passes_one_def val [symmetric] case_prod_beta)
  consider (A) "- 51 \<le> E + int s" | (B) "E + int s = - 52" | (C) "E + int s \<le> - 53"
    by linarith
  then show ?thesis
  proof cases
    case A
    then have "(2::real) powi (- 51) \<le> u" unfolding u_def by (rule powi_le_iff)
    then have ule: "1 / 2 ^ 51 \<le> u" by (simp add: field_simps)
    then have "2 \<le> 2 ^ 52 * u" by (simp add: field_simps)
    moreover have "2 ^ 52 * u \<le> real q * u"
    proof -
      have "real ((2::nat) ^ 52) \<le> real q" using qlo by (rule of_nat_mono)
      then show ?thesis using upos by (intro mult_right_mono) simp_all
    qed
    ultimately have two: "2 \<le> real q * u" "2 \<le> x"
      using xlo by linarith+
    have "1 + 1 / 2 ^ 53 < (2::real)" by simp
    then have "1 < real q * u" "1 + 1 / 2 ^ 53 < x"
      using two by linarith+
    then show ?thesis by (simp add: po x_def)
  next
    case B
    have uv: "u = 1 / 2 ^ 52" by (simp add: u_def B field_simps)
    have no: "\<not> 971 < snd result" using sndr(1) B by simp
    have "2 ^ 52 * 2 ^ s * (2::real) powi E = 1"
      using u uv by (simp add: field_simps)
    then have pE: "(2::real) powi E = 1 / (2 ^ 52 * 2 ^ s)"
      by (simp add: field_simps)
    have two_s: "(2::nat) ^ s = 2 * 2 ^ (s - 1)" using s by (cases s) simp_all
    have "(1 < real q * u) = (real ((2::nat) ^ 52) < real q)"
      by (simp add: uv field_simps)
    also have "\<dots> = (2 ^ 52 < q)" by (simp only: of_nat_less_iff)
    also have "\<dots> = (2 ^ 52 * 2 ^ s + 2 ^ (s - 1) < N)"
      using round_half_even_gt [OF s, of "2 ^ 52" N] by (simp add: q_def)
    also have "\<dots> = (real (2 * (2 ^ 52 * 2 ^ s + 2 ^ (s - 1))) < real (2 * N))"
      by (simp only: of_nat_less_iff mult_less_cancel1) simp
    also have "\<dots> = (1 + 1 / 2 ^ 53 < x)"
    proof -
      define A :: real where "A = 2 ^ 53 * 2 ^ s + 2 ^ s"
      have r: "real (2 * (2 ^ 52 * 2 ^ s + 2 ^ (s - 1))) = A"
        using s by (cases s) (simp_all add: A_def)
      have e: "(1 + 1 / 2 ^ 53) * (2 ^ 52 * 2 ^ s) = A / 2"
        by (simp add: A_def field_simps)
      have xe: "x = real N / (2 ^ 52 * 2 ^ s)" by (simp add: x_def pE)
      have pos: "(0::real) < 2 ^ 52 * 2 ^ s" by simp
      have "(1 + 1 / 2 ^ 53 < x) = ((1 + 1 / 2 ^ 53) * (2 ^ 52 * 2 ^ s) < real N)"
        unfolding xe by (rule pos_less_divide_eq [OF pos])
      also have "\<dots> = (A / 2 < real N)" by (simp only: e)
      also have "\<dots> = (A < 2 * real N)" by (simp add: field_simps)
      also have "\<dots> = (real (2 * (2 ^ 52 * 2 ^ s + 2 ^ (s - 1))) < real (2 * N))"
        by (simp only: r) simp
      finally show ?thesis by (rule sym)
    qed
    finally show ?thesis by (simp add: po no x_def)
  next
    case C
    then have "u \<le> 2 powi (- 53)" unfolding u_def by (rule powi_le_iff)
    then have ule: "u \<le> 1 / 2 ^ 53" by (simp add: field_simps)
    have no: "\<not> 971 < snd result" using sndr(1) C by simp
    have "real q \<le> real ((2::nat) ^ 53)" using qhi by (rule of_nat_mono)
    then have "real q * u \<le> 2 ^ 53 * u" using upos by (intro mult_right_mono) simp_all
    also have "\<dots> \<le> 1" using ule by (simp add: field_simps)
    finally have a: "\<not> 1 < real q * u" by simp
    have "x < 2 ^ 53 * u" by (rule xhi)
    also have "\<dots> \<le> 1" using ule by (simp add: field_simps)
    finally have b: "\<not> 1 + 1 / 2 ^ 53 < x" by simp
    show ?thesis using a b by (simp add: po no x_def)
  qed
qed

subsection \<open>The rounded difference against the threshold\<close>

lemma round_float64_zero: "round_float64 0 E = Finite 0 E"
  by (simp add: round_float64_def round_magnitude_def bit_length.simps [of 0])

lemma round_float64_gt_one:
  "float_gt_int (round_float64 M E) 1 = (1 + 1 / 2 ^ 53 < real_of_int M * 2 powi E)"
proof (cases "0 < M")
  case True
  then have N: "0 < nat \<bar>M\<bar>" and r: "real (nat \<bar>M\<bar>) = real_of_int M" by simp_all
  show ?thesis
    using round_magnitude_passes_one [OF N, of E] True
    by (cases "round_magnitude (nat \<bar>M\<bar>) E")
       (auto simp: round_float64_def passes_one_def r)
next
  case False
  have "real_of_int M * 2 powi E \<le> 0"
    using False by (simp add: mult_le_0_iff)
  then have rhs: "\<not> 1 + 1 / 2 ^ 53 < real_of_int M * 2 powi E" by simp
  show ?thesis
  proof (cases "M = 0")
    case True
    then show ?thesis by (simp add: round_float64_zero)
  next
    case False
    with \<open>\<not> 0 < M\<close> have neg: "M < 0" by simp
    have le: "- real q * 2 powi E' \<le> 0" for q E'
      by (simp add: mult_le_0_iff)
    have "\<not> float_gt_int (round_float64 M E) 1"
    proof (cases "round_magnitude (nat \<bar>M\<bar>) E")
      case None
      then show ?thesis using neg by (simp add: round_float64_def)
    next
      case (Some p)
      obtain q E' where p: "p = (q, E')" by (cases p)
      have "\<not> 1 < - real q * 2 powi E'" using le [of q E'] by linarith
      then show ?thesis using neg Some p by (simp add: round_float64_def)
    qed
    then show ?thesis using rhs by simp
  qed
qed

lemma round_float64_lt_minus_one:
  "float_lt_int (round_float64 M E) (- 1) = float_gt_int (round_float64 (- M) E) 1"
proof (cases "M = 0")
  case True
  then show ?thesis by (simp add: round_float64_zero)
next
  case False
  show ?thesis
  proof (cases "round_magnitude (nat \<bar>M\<bar>) E")
    case None
    then show ?thesis using False by (auto simp: round_float64_def)
  next
    case (Some p)
    obtain q E' where p: "p = (q, E')" by (cases p)
    show ?thesis using False Some p by (auto simp: round_float64_def)
  qed
qed

lemma powi_scale:
  assumes "E \<le> e"
  shows "(2::real) ^ nat (e - E) * 2 powi E = 2 powi e"
proof -
  have "(2::real) powi e = 2 powi (int (nat (e - E)) + E)" using assms by simp
  also have "\<dots> = 2 powi int (nat (e - E)) * 2 powi E" by (rule power_int_add) simp
  finally show ?thesis by (simp only: power_int_of_nat)
qed

lemma fsub_exact:
  assumes "E = min e1 e2"
  shows "real_of_int (m1 * 2 ^ nat (e1 - E) - m2 * 2 ^ nat (e2 - E)) * 2 powi E =
         valof (Finite m1 e1) - valof (Finite m2 e2)"
proof -
  have a: "(2::real) ^ nat (e1 - E) * 2 powi E = 2 powi e1"
    and b: "(2::real) ^ nat (e2 - E) * 2 powi E = 2 powi e2"
    using assms by (simp_all add: powi_scale)
  have "real_of_int (m1 * 2 ^ nat (e1 - E) - m2 * 2 ^ nat (e2 - E)) * 2 powi E =
        real_of_int m1 * (2 ^ nat (e1 - E) * 2 powi E) -
        real_of_int m2 * (2 ^ nat (e2 - E) * 2 powi E)"
    by (simp add: algebra_simps)
  then show ?thesis by (simp only: a b valof.simps)
qed

lemma fsub_gt_one:
  "float_gt_int (fsub (Finite ma ea) (Finite mb eb)) 1 =
     (1 + 1 / 2 ^ 53 < valof (Finite ma ea) - valof (Finite mb eb))"
  unfolding fsub.simps Let_def round_float64_gt_one
  by (simp only: fsub_exact [OF refl])

lemma fsub_lt_minus_one:
  "float_lt_int (fsub (Finite ma ea) (Finite mb eb)) (- 1) =
     (valof (Finite ma ea) - valof (Finite mb eb) < - (1 + 1 / 2 ^ 53))"
proof -
  define E where "E = min ea eb"
  define M where "M = ma * 2 ^ nat (ea - E) - mb * 2 ^ nat (eb - E)"
  have x: "real_of_int M * 2 powi E = valof (Finite ma ea) - valof (Finite mb eb)"
    unfolding M_def by (rule fsub_exact) (simp add: E_def)
  have "float_lt_int (fsub (Finite ma ea) (Finite mb eb)) (- 1) =
        float_lt_int (round_float64 M E) (- 1)"
    by (simp add: Let_def M_def E_def)
  also have "\<dots> = (1 + 1 / 2 ^ 53 < real_of_int (- M) * 2 powi E)"
    by (simp only: round_float64_lt_minus_one round_float64_gt_one)
  also have "\<dots> = (real_of_int M * 2 powi E < - (1 + 1 / 2 ^ 53))"
    by (simp only: of_int_minus mult_minus_left less_minus_iff)
  finally show ?thesis by (simp only: x)
qed

lemma after_cell_class_worse:
  "(after_cell_class (Finite mb eb) (Finite ma ea) = ''worse'') =
     (1 + 1 / 2 ^ 53 < valof (Finite ma ea) - valof (Finite mb eb))"
  by (simp add: after_cell_class_def THRESHOLD_def fsub_gt_one del: fsub.simps valof.simps)

lemma after_cell_class_better:
  "(after_cell_class (Finite mb eb) (Finite ma ea) = ''better'') =
     (valof (Finite ma ea) - valof (Finite mb eb) < - (1 + 1 / 2 ^ 53))"
  using fsub_gt_one [of ma ea mb eb] fsub_lt_minus_one [of ma ea mb eb]
  by (auto simp add: after_cell_class_def THRESHOLD_def simp del: fsub.simps valof.simps)

lemma after_cell_class_same:
  "(after_cell_class (Finite mb eb) (Finite ma ea) = ''same'') =
     (\<bar>valof (Finite ma ea) - valof (Finite mb eb)\<bar> \<le> 1 + 1 / 2 ^ 53)"
proof -
  define d where "d = valof (Finite ma ea) - valof (Finite mb eb)"
  define c :: real where "c = 1 + 1 / 2 ^ 53"
  have g: "float_gt_int (fsub (Finite ma ea) (Finite mb eb)) 1 = (c < d)"
    unfolding c_def d_def by (rule fsub_gt_one)
  have l: "float_lt_int (fsub (Finite ma ea) (Finite mb eb)) (- 1) = (d < - c)"
    unfolding c_def d_def by (rule fsub_lt_minus_one)
  have "(after_cell_class (Finite mb eb) (Finite ma ea) = ''same'') =
        (\<not> float_gt_int (fsub (Finite ma ea) (Finite mb eb)) 1 \<and>
         \<not> float_lt_int (fsub (Finite ma ea) (Finite mb eb)) (- 1))"
    by (simp add: after_cell_class_def THRESHOLD_def del: fsub.simps)
  also have "\<dots> = (\<not> c < d \<and> \<not> d < - c)" by (simp only: g l)
  also have "\<dots> = (\<bar>d\<bar> \<le> c)" by (auto simp: abs_le_iff)
  finally show ?thesis unfolding d_def c_def .
qed

lemma round_half_even_le:
  assumes "N < 2 ^ 53 * 2 ^ s"
  shows "round_half_even N s \<le> 2 ^ 53"
proof -
  have "N div 2 ^ s < 2 ^ 53" using assms by (simp add: less_mult_imp_div_less)
  then show ?thesis using round_half_even_cases [of N s] by auto
qed

lemma round_magnitude_range:
  assumes "round_magnitude N E = Some (q, E')" and "- 1074 \<le> E" and "E \<le> 971"
  shows "q < 2 ^ 53 \<and> - 1074 \<le> E' \<and> E' \<le> 971"
proof (cases "bit_length N \<le> 53")
  case True
  have "N < 2 ^ bit_length N" by (rule bit_length_upper)
  also have "(2::nat) ^ bit_length N \<le> 2 ^ 53"
    using True by (intro power_increasing) simp_all
  finally have "N < 2 ^ 53" .
  then show ?thesis using assms True by (simp add: round_magnitude_def)
next
  case False
  define s where "s = bit_length N - 53"
  have n: "bit_length N = 53 + s" using False by (simp add: s_def)
  have "N < 2 ^ 53 * 2 ^ s" using bit_length_upper [of N] by (simp add: n power_add)
  then have "round_half_even N s \<le> 2 ^ 53" by (rule round_half_even_le)
  then show ?thesis
    using assms False
    by (auto simp: round_magnitude_def Let_def s_def split: if_splits)
qed

lemma round_float64_is_float64:
  assumes "- 1074 \<le> E" and "E \<le> 971"
  shows "is_float64 (round_float64 M E)"
proof (cases "round_magnitude (nat \<bar>M\<bar>) E")
  case None
  then show ?thesis by (simp add: round_float64_def is_float64_def)
next
  case (Some p)
  obtain q E' where p: "p = (q, E')" by (cases p)
  have "q < 2 ^ 53 \<and> - 1074 \<le> E' \<and> E' \<le> 971"
    using Some assms unfolding p by (rule round_magnitude_range)
  then show ?thesis using Some p by (simp add: round_float64_def is_float64_def)
qed

text \<open>
  The difference of two doubles is a double.
\<close>

lemma fsub_is_float64:
  assumes "is_float64 x" and "is_float64 y"
  shows "is_float64 (fsub x y)"
proof (cases x)
  case (Finite m1 e1)
  show ?thesis
  proof (cases y)
    case (Finite m2 e2)
    have "is_float64 (round_float64 (m1 * 2 ^ nat (e1 - min e1 e2) - m2 * 2 ^ nat (e2 - min e1 e2))
            (min e1 e2))"
      using assms \<open>x = Finite m1 e1\<close> Finite
      by (intro round_float64_is_float64) (auto simp: is_float64_def min_def)
    then show ?thesis using \<open>x = Finite m1 e1\<close> Finite by (simp add: Let_def)
  qed (simp_all add: \<open>x = Finite m1 e1\<close> is_float64_def)
qed (cases y; simp add: is_float64_def)+

lemma after_cell_class_nan:
  "after_cell_class NaN x = ''same''" "after_cell_class x NaN = ''same''"
  by (cases x; simp add: after_cell_class_def)+

text \<open>
  With the doubles written \<^verbatim>\<open>0.1\<close>, \<^verbatim>\<open>1.1\<close>, \<^verbatim>\<open>1.2\<close> and \<^verbatim>\<open>2.2\<close> in Python:
  \<^verbatim>\<open>1.1 - 0.1 == 1.0\<close> and \<^verbatim>\<open>2.2 - 1.2 == 1.0000000000000002\<close>.
\<close>

lemma fsub_examples:
  "fsub (Finite 2476979795053773 (- 51)) (Finite 3602879701896397 (- 55)) =
     Finite 4503599627370496 (- 52)"
  "fsub (Finite 2476979795053773 (- 50)) (Finite 5404319552844595 (- 52)) =
     Finite 4503599627370497 (- 52)"
  by (simp_all add: round_float64_def round_magnitude_def round_half_even_def Let_def
        bit_length.simps)

text \<open>
  C4 (amended). For every pair of finite doubles, the cell-styling function returns
  "worse" exactly when the exact difference \<open>after - before\<close> is greater than
  \<open>1 + 2 ^ - 53\<close>, "better" exactly when it is less than \<open>- (1 + 2 ^ - 53)\<close>, and "same" in
  every other case: the difference that the code compares with the threshold is the
  double nearest to the exact one, and an exact difference between 1 and \<open>1 + 2 ^ - 53\<close>
  is rounded to 1. At the boundary, (10, 11) is "same", (10, 11.01) is "worse" and
  (10, 8.99) is "better", where 11.01 and 8.99 are the doubles nearest to these decimals,
  \<open>6198078987168645 * 2 ^ - 49\<close> and \<open>5060920081257595 * 2 ^ - 49\<close>.
\<close>

theorem after_cell_class_threshold:
  "(after_cell_class (Finite mb eb) (Finite ma ea) = ''worse'') =
     (1 + 1 / 2 ^ 53 < valof (Finite ma ea) - valof (Finite mb eb))
   \<and> (after_cell_class (Finite mb eb) (Finite ma ea) = ''better'') =
     (valof (Finite ma ea) - valof (Finite mb eb) < - (1 + 1 / 2 ^ 53))
   \<and> (after_cell_class (Finite mb eb) (Finite ma ea) = ''same'') =
     (\<bar>valof (Finite ma ea) - valof (Finite mb eb)\<bar> \<le> 1 + 1 / 2 ^ 53)
   \<and> after_cell_class (Finite 10 0) (Finite 11 0) = ''same''
   \<and> \<bar>valof (Finite 6198078987168645 (- 49)) - 1101 / 100\<bar> < 1 / 2 ^ 50
   \<and> after_cell_class (Finite 10 0) (Finite 6198078987168645 (- 49)) = ''worse''
   \<and> \<bar>valof (Finite 5060920081257595 (- 49)) - 899 / 100\<bar> < 1 / 2 ^ 50
   \<and> after_cell_class (Finite 10 0) (Finite 5060920081257595 (- 49)) = ''better''"
proof -
  have "after_cell_class (Finite 10 0) (Finite 11 0) = ''same''"
    by (simp add: after_cell_class_same)
  moreover have "\<bar>valof (Finite 6198078987168645 (- 49)) - 1101 / 100\<bar> < 1 / 2 ^ 50"
    by simp
  moreover have "after_cell_class (Finite 10 0) (Finite 6198078987168645 (- 49)) = ''worse''"
    by (simp add: after_cell_class_worse)
  moreover have "\<bar>valof (Finite 5060920081257595 (- 49)) - 899 / 100\<bar> < 1 / 2 ^ 50"
    by simp
  moreover have "after_cell_class (Finite 10 0) (Finite 5060920081257595 (- 49)) = ''better''"
    by (simp add: after_cell_class_better)
  ultimately show ?thesis
    by (simp only: after_cell_class_worse after_cell_class_better after_cell_class_same
          simp_thms)
qed

text \<open>
  C4 as stated fails. Take for \<open>before\<close> the double written \<^verbatim>\<open>0.1\<close> and for \<open>after\<close> the
  double written \<^verbatim>\<open>1.1\<close>: as numbers, \<open>after - before\<close> is greater than 1, and the function
  returns "same", because \<^verbatim>\<open>1.1 - 0.1 == 1.0\<close>.
\<close>

theorem after_cell_class_rounds_difference:
  "is_float64 (Finite 3602879701896397 (- 55))
   \<and> is_float64 (Finite 2476979795053773 (- 51))
   \<and> 1 < valof (Finite 2476979795053773 (- 51)) - valof (Finite 3602879701896397 (- 55))
   \<and> after_cell_class (Finite 3602879701896397 (- 55)) (Finite 2476979795053773 (- 51)) =
       ''same''"
proof -
  have "after_cell_class (Finite 3602879701896397 (- 55)) (Finite 2476979795053773 (- 51)) =
          ''same''"
    by (simp add: after_cell_class_same)
  then show ?thesis by (simp add: is_float64_def)
qed

section \<open>The chart queries\<close>

lemma count_list_filter:
  "count_list (filter P xs) m = (if P m then count_list xs m else 0)"
  by (induction xs) auto

lemma filter_graph_data_eq:
  fixes street direction day_type period :: string
  shows "filter_graph_data DATA BASELINE street direction day_type period =
    (filter (matches street direction period day_type) DATA,
     filter (matches street direction period day_type) BASELINE)"
proof -
  have "(\<lambda>row. measurement.street row = street \<and> measurement.period row = period \<and>
          measurement.day_type row = day_type \<and> measurement.direction row = direction) =
        matches street direction period day_type"
    by (auto simp: matches_def fun_eq_iff)
  then show ?thesis by (simp add: filter_graph_data_def)
qed

text \<open>
  C5 (amended). The series query keeps, from each of the two collections, exactly the
  measurements with the requested (street, direction, period, day type), each as often
  as the collection holds it and in the order of the collection; nothing is aggregated.
  The result is ascending by date whenever the collection is.
\<close>

theorem filter_graph_data_in_dataset_order:
  fixes street direction day_type period :: string
  shows "(case filter_graph_data DATA BASELINE street direction day_type period of
      (filtered, filtered_baseline) \<Rightarrow>
        (\<forall>m. count_list filtered m =
              (if matches street direction period day_type m then count_list DATA m else 0))
      \<and> (\<forall>m. count_list filtered_baseline m =
              (if matches street direction period day_type m then count_list BASELINE m else 0))
      \<and> subseq filtered DATA
      \<and> subseq filtered_baseline BASELINE
      \<and> (sorted (map measurement.date DATA) \<longrightarrow> sorted (map measurement.date filtered))
      \<and> (sorted (map measurement.date BASELINE) \<longrightarrow>
           sorted (map measurement.date filtered_baseline)))"
  by (simp add: filter_graph_data_eq count_list_filter sorted_filter)

theorem filter_graph_data_in_dataset_order_witness:
  "sorted (map measurement.date
      [\<lparr>street = ''Front'', direction = ''EB'', period = ''AMPK'', day_type = ''Weekday'',
         date = ''2017-11-01'', tt = 5\<rparr>,
       \<lparr>street = ''Queen'', direction = ''EB'', period = ''AMPK'', day_type = ''Weekday'',
         date = ''2017-11-01'', tt = 7\<rparr>,
       \<lparr>street = ''Front'', direction = ''EB'', period = ''AMPK'', day_type = ''Weekday'',
         date = ''2017-11-02'', tt = 6\<rparr>])
   \<and> sorted (map measurement.date
      [\<lparr>street = ''Front'', direction = ''EB'', period = ''AMPK'', day_type = ''Weekday'',
         date = ''2017-10-01'', tt = 4\<rparr>])
   \<and> (case filter_graph_data
      [\<lparr>street = ''Front'', direction = ''EB'', period = ''AMPK'', day_type = ''Weekday'',
         date = ''2017-11-01'', tt = 5\<rparr>,
       \<lparr>street = ''Queen'', direction = ''EB'', period = ''AMPK'', day_type = ''Weekday'',
         date = ''2017-11-01'', tt = 7\<rparr>,
       \<lparr>street = ''Front'', direction = ''EB'', period = ''AMPK'', day_type = ''Weekday'',
         date = ''2017-11-02'', tt = 6\<rparr>]
      [\<lparr>street = ''Front'', direction = ''EB'', period = ''AMPK'', day_type = ''Weekday'',
         date = ''2017-10-01'', tt = 4\<rparr>]
      ''Front'' ''EB'' ''Weekday'' ''AMPK'' of
        (filtered, filtered_baseline) \<Rightarrow>
          sorted (map measurement.date filtered) \<and> sorted (map measurement.date filtered_baseline))"
  using filter_graph_data_in_dataset_order [where DATA =
      "[\<lparr>street = ''Front'', direction = ''EB'', period = ''AMPK'', day_type = ''Weekday'',
         date = ''2017-11-01'', tt = 5\<rparr>,
       \<lparr>street = ''Queen'', direction = ''EB'', period = ''AMPK'', day_type = ''Weekday'',
         date = ''2017-11-01'', tt = 7\<rparr>,
       \<lparr>street = ''Front'', direction = ''EB'', period = ''AMPK'', day_type = ''Weekday'',
         date = ''2017-11-02'', tt = 6\<rparr>]"
      and BASELINE =
      "[\<lparr>street = ''Front'', direction = ''EB'', period = ''AMPK'', day_type = ''Weekday'',
         date = ''2017-10-01'', tt = 4\<rparr>]"
      and street = "''Front''" and direction = "''EB''" and day_type = "''Weekday''"
      and period = "''AMPK''"]
  by (simp add: filter_graph_data_eq matches_def)

text \<open>
  C5 as stated fails: the query does not sort. Two matching measurements stored with
  the later date first are returned with the later date first.
\<close>

theorem filter_graph_data_not_sorted:
  "filter_graph_data
      [\<lparr>street = ''Front'', direction = ''EB'', period = ''AMPK'', day_type = ''Weekday'',
         date = ''2017-11-02'', tt = 6\<rparr>,
       \<lparr>street = ''Front'', direction = ''EB'', period = ''AMPK'', day_type = ''Weekday'',
         date = ''2017-11-01'', tt = 5\<rparr>]
      [] ''Front'' ''EB'' ''Weekday'' ''AMPK''
    = ([\<lparr>street = ''Front'', direction = ''EB'', period = ''AMPK'', day_type = ''Weekday'',
          date = ''2017-11-02'', tt = 6\<rparr>,
        \<lparr>street = ''Front'', direction = ''EB'', period = ''AMPK'', day_type = ''Weekday'',
          date = ''2017-11-01'', tt = 5\<rparr>], [])
   \<and> \<not> sorted (map measurement.date (fst (filter_graph_data
      [\<lparr>street = ''Front'', direction = ''EB'', period = ''AMPK'', day_type = ''Weekday'',
         date = ''2017-11-02'', tt = 6\<rparr>,
       \<lparr>street = ''Front'', direction = ''EB'', period = ''AMPK'', day_type = ''Weekday'',
         date = ''2017-11-01'', tt = 5\<rparr>]
      [] ''Front'' ''EB'' ''Weekday'' ''AMPK'')))"
  by (simp add: filter_graph_data_def)

text \<open>
  C6. When no measurement of either collection matches the filters, the series query
  returns a pair of empty sequences and, for each of the two direction codes, the chart
  is built with an empty series and no exception.
\<close>

theorem empty_series:
  fixes street direction day_type period :: string
  assumes "\<forall>m \<in> set DATA. \<not> matches street direction period day_type m"
    and "\<forall>m \<in> set BASELINE. \<not> matches street direction period day_type m"
    and "direction = ''EB'' \<or> direction = ''WB''"
  shows "filter_graph_data DATA BASELINE street direction day_type period = ([], [])
       \<and> (\<exists>title. generate_graph DATA BASELINE street direction day_type period =
             Inr (Figure (Layout title ''Date'' ''Travel Time (min)'') [Bar [] []]))"
proof -
  have e: "filter_graph_data DATA BASELINE street direction day_type period = ([], [])"
    using assms(1,2) by (simp add: filter_graph_data_eq filter_empty_conv)
  from assms(3) have "\<exists>title. map_of DIRECTIONS direction = Some title"
    by (auto simp: DIRECTIONS_def)
  then show ?thesis
    by (auto simp: generate_graph_def e)
qed

theorem empty_series_witness:
  "\<not> matches ''Front'' ''EB'' ''AMPK'' ''Weekday''
        \<lparr>street = ''Queen'', direction = ''EB'', period = ''AMPK'', day_type = ''Weekday'',
           date = ''2017-11-01'', tt = 7\<rparr>
   \<and> filter_graph_data
        [\<lparr>street = ''Queen'', direction = ''EB'', period = ''AMPK'', day_type = ''Weekday'',
           date = ''2017-11-01'', tt = 7\<rparr>] [] ''Front'' ''EB'' ''Weekday'' ''AMPK'' = ([], [])
   \<and> (\<exists>title. generate_graph
        [\<lparr>street = ''Queen'', direction = ''EB'', period = ''AMPK'', day_type = ''Weekday'',
           date = ''2017-11-01'', tt = 7\<rparr>] [] ''Front'' ''EB'' ''Weekday'' ''AMPK'' =
          Inr (Figure (Layout title ''Date'' ''Travel Time (min)'') [Bar [] []]))"
  using empty_series [where DATA =
      "[\<lparr>street = ''Queen'', direction = ''EB'', period = ''AMPK'', day_type = ''Weekday'',
           date = ''2017-11-01'', tt = 7\<rparr>]"
      and BASELINE = "[]" and street = "''Front''" and direction = "''EB''"
      and day_type = "''Weekday''" and period = "''AMPK''"]
  by (simp add: matches_def)

section \<open>The table query\<close>
































end
